theory Spec2Isabelle
  imports Complex_Main
begin

section \<open>Python strings and lists\<close>

text \<open>
  Strings are ASCII character lists. The helpers below follow the Python built-ins that
  \<^verbatim>\<open>kg.py\<close> and \<^verbatim>\<open>search_utils.py\<close> call: \<^verbatim>\<open>str.lower\<close>, \<^verbatim>\<open>x in s\<close>,
  \<^verbatim>\<open>str.find\<close>, \<^verbatim>\<open>str.split\<close>, \<^verbatim>\<open>str.strip\<close>, \<^verbatim>\<open>str.join\<close>, \<^verbatim>\<open>str(i)\<close>,
  \<^verbatim>\<open>re.findall(r'\w+', s)\<close>, slices and \<^verbatim>\<open>sorted(..., key=..., reverse=True)\<close>.
  Scores and similarities are read as reals; edge weights and the pruning threshold are
  Python floats with their infinities and NaN.
\<close>

definition lower_char :: "char \<Rightarrow> char" where
  "lower_char c =
     (let n = (of_char c :: nat) in if 65 \<le> n \<and> n \<le> 90 then char_of (n + 32) else c)"

definition lower :: "string \<Rightarrow> string" where
  "lower s = map lower_char s"

definition is_space :: "char \<Rightarrow> bool" where
  "is_space c = ((of_char c :: nat) \<in> set [9, 10, 11, 12, 13, 28, 29, 30, 31, 32])"

definition is_word_char :: "char \<Rightarrow> bool" where
  "is_word_char c =
     (let n = (of_char c :: nat)
      in (48 \<le> n \<and> n \<le> 57) \<or> (65 \<le> n \<and> n \<le> 90) \<or> n = 95 \<or> (97 \<le> n \<and> n \<le> 122))"

fun starts_with :: "string \<Rightarrow> string \<Rightarrow> bool" where
  "starts_with [] ys = True"
| "starts_with (x # xs) [] = False"
| "starts_with (x # xs) (y # ys) = (x = y \<and> starts_with xs ys)"

text \<open>\<^verbatim>\<open>needle in hay\<close> on strings.\<close>

fun str_in :: "string \<Rightarrow> string \<Rightarrow> bool" where
  "str_in needle [] = (needle = [])"
| "str_in needle (c # cs) = (starts_with needle (c # cs) \<or> str_in needle cs)"

text \<open>\<^verbatim>\<open>hay.find(needle)\<close>: the first position, \<open>None\<close> for Python's \<open>-1\<close>.\<close>

fun find_from :: "string \<Rightarrow> string \<Rightarrow> nat \<Rightarrow> nat option" where
  "find_from needle [] k = (if needle = [] then Some k else None)"
| "find_from needle (c # cs) k =
     (if starts_with needle (c # cs) then Some k else find_from needle cs (Suc k))"

definition find_str :: "string \<Rightarrow> string \<Rightarrow> nat option" where
  "find_str hay needle = find_from needle hay 0"

text \<open>The maximal runs of characters satisfying \<open>P\<close>, in order.\<close>

fun runs :: "(char \<Rightarrow> bool) \<Rightarrow> string \<Rightarrow> string \<Rightarrow> string list" where
  "runs P cur [] = (if cur = [] then [] else [cur])"
| "runs P cur (c # cs) =
     (if P c then runs P (cur @ [c]) cs
      else if cur = [] then runs P [] cs else cur # runs P [] cs)"

definition split_ws :: "string \<Rightarrow> string list" where
  "split_ws s = runs (\<lambda>c. \<not> is_space c) [] s"

definition findall_w :: "string \<Rightarrow> string list" where
  "findall_w s = runs is_word_char [] s"

definition strip :: "string \<Rightarrow> string" where
  "strip s = rev (dropWhile is_space (rev (dropWhile is_space s)))"

fun join :: "string \<Rightarrow> string list \<Rightarrow> string" where
  "join sep [] = []"
| "join sep [x] = x"
| "join sep (x # y # ys) = x @ sep @ join sep (y # ys)"

definition digit_char :: "nat \<Rightarrow> char" where
  "digit_char d = char_of (48 + d)"

fun str_nat :: "nat \<Rightarrow> string" where
  "str_nat n = (if n < 10 then [digit_char n] else str_nat (n div 10) @ [digit_char (n mod 10)])"

declare str_nat.simps [simp del]

text \<open>
  The pairs visited by
  \<^verbatim>\<open>for i, a in enumerate(xs): for j in range(i+1, len(xs)): b = xs[j]\<close>, in that order.
\<close>

fun pairs :: "'a list \<Rightarrow> ('a \<times> 'a) list" where
  "pairs [] = []"
| "pairs (x # xs) = map (Pair x) xs @ pairs xs"

text \<open>
  \<^verbatim>\<open>sorted(xs, key=f, reverse=True)\<close>: CPython reverses the list, sorts it stably in
  ascending order and reverses the result, so equal keys keep their original order.
\<close>

definition sorted_reverse :: "('a \<Rightarrow> 'k::linorder) \<Rightarrow> 'a list \<Rightarrow> 'a list" where
  "sorted_reverse f xs = rev (sort_key f (rev xs))"

text \<open>The slices \<^verbatim>\<open>xs[:k]\<close> and \<^verbatim>\<open>xs[-k:]\<close> for a Python integer \<open>k\<close>.\<close>

definition slice_to :: "'a list \<Rightarrow> int \<Rightarrow> 'a list" where
  "slice_to xs k = (if 0 \<le> k then take (nat k) xs else take (nat (int (length xs) + k)) xs)"

definition slice_last :: "'a list \<Rightarrow> int \<Rightarrow> 'a list" where
  "slice_last xs k =
     (if 0 < k then drop (nat (int (length xs) - k)) xs
      else drop (nat (- k)) xs)"

text \<open>
  A Python float as an edge weight or pruning threshold: a number, an infinity or NaN.
  \<^verbatim>\<open>a < b\<close> and \<^verbatim>\<open>a >= b\<close> are both false as soon as one side is NaN.
\<close>

datatype pyfloat = Num real | PosInf | NegInf | NaN

fun float_lt :: "pyfloat \<Rightarrow> pyfloat \<Rightarrow> bool" where
  "float_lt NaN b = False"
| "float_lt a NaN = False"
| "float_lt (Num a) (Num b) = (a < b)"
| "float_lt (Num a) PosInf = True"
| "float_lt (Num a) NegInf = False"
| "float_lt PosInf b = False"
| "float_lt NegInf (Num b) = True"
| "float_lt NegInf PosInf = True"
| "float_lt NegInf NegInf = False"

definition float_ge :: "pyfloat \<Rightarrow> pyfloat \<Rightarrow> bool" where
  "float_ge a b = (a \<noteq> NaN \<and> b \<noteq> NaN \<and> \<not> float_lt a b)"

section \<open>The language pipeline of \<^verbatim>\<open>kg.py\<close>\<close>

text \<open>
  \<^verbatim>\<open>nlp(text)\<close> is spaCy's pipeline, a collaborator outside the repository. A parsed
  document is what the source reads from it: the entities \<^verbatim>\<open>doc.ents\<close> with their token
  range, text and label, the sentences \<^verbatim>\<open>doc.sents\<close> with their token range and text,
  \<^verbatim>\<open>doc.char_span(start, end)\<close> returning the token range of a character range, and the
  tokens of \<^verbatim>\<open>span.root.subtree\<close> with index, lemma and part of speech.
\<close>

record span =
  sp_start :: nat
  sp_end :: nat
  sp_text :: string
  sp_label :: string

record sentence =
  st_start :: nat
  st_end :: nat
  st_text :: string

record token =
  tk_i :: nat
  tk_lemma :: string
  tk_pos :: string

record doc =
  d_ents :: "span list"
  d_sents :: "sentence list"
  d_char_span :: "nat \<Rightarrow> nat \<Rightarrow> (nat \<times> nat) option"
  d_subtree :: "nat \<times> nat \<Rightarrow> token list"

definition FAMILY_RELATIONS :: "string list" where
  "FAMILY_RELATIONS =
    [''sister'', ''sisters'', ''brother'', ''brothers'', ''father'', ''mother'', ''parent'',
     ''parents'', ''son'', ''sons'', ''daughter'', ''daughters'', ''husband'', ''wife'',
     ''spouse'', ''grandfather'', ''grandmother'', ''grandparent'', ''grandparents'',
     ''grandson'', ''granddaughter'', ''grandchild'', ''grandchildren'',
     ''uncle'', ''aunt'', ''cousin'', ''cousins'', ''niece'', ''nephew'']"

definition preprocess_text :: "string \<Rightarrow> string" where
  "preprocess_text text = join '' '' (split_ws text)"

definition KEY_LABELS :: "string list" where
  "KEY_LABELS = [''PERSON'', ''ORG'', ''GPE'', ''LOC'', ''PRODUCT'', ''EVENT'', ''WORK_OF_ART'']"

definition extract_key_entities :: "doc \<Rightarrow> (string \<times> string) list" where
  "extract_key_entities d =
     map (\<lambda>ent. (sp_text ent, sp_label ent))
       (filter (\<lambda>ent. sp_label ent \<in> set KEY_LABELS) (d_ents d))"

text \<open>\<^verbatim>\<open>sent.ents\<close>: the entities of the document that lie inside the sentence.\<close>

definition sent_ents :: "doc \<Rightarrow> sentence \<Rightarrow> span list" where
  "sent_ents d s =
     filter (\<lambda>ent. st_start s \<le> sp_start ent \<and> sp_end ent \<le> st_end s) (d_ents d)"

text \<open>
  The spans collected by the first loop of \<^verbatim>\<open>extract_relations\<close>: the token range of
  the first occurrence of each key entity, kept when \<^verbatim>\<open>char_span\<close> finds a non-empty
  span. The text of such a span is the entity's text.
\<close>

definition entity_spans :: "string \<Rightarrow> doc \<Rightarrow> (string \<times> string) list \<Rightarrow> ((nat \<times> nat) \<times> string) list" where
  "entity_spans text d key_entities =
     concat (map (\<lambda>(ent, _).
        case find_str text ent of
          None \<Rightarrow> []
        | Some start \<Rightarrow>
            (case d_char_span d start (start + length ent) of
               None \<Rightarrow> []
             | Some (a, b) \<Rightarrow> if a < b then [((a, b), ent)] else []))
       key_entities)"

definition path_relation :: "doc \<Rightarrow> nat \<times> nat \<Rightarrow> nat \<times> nat \<Rightarrow> string" where
  "path_relation d e1 e2 =
     (let path = sort_key tk_i (remdups (d_subtree d e1 @ d_subtree d e2))
      in join '' '' (map tk_lemma (filter (\<lambda>t. tk_pos t \<in> set [''VERB'', ''ADP'']) path)))"

definition extract_relations :: "string \<Rightarrow> doc \<Rightarrow> (string \<times> string) list \<Rightarrow> (string \<times> string \<times> string) list" where
  "extract_relations text d key_entities =
     concat (map (\<lambda>sent.
        let sent_entities =
              filter (\<lambda>(r, _). st_start sent \<le> fst r \<and> snd r \<le> st_end sent)
                (entity_spans text d key_entities)
        in concat (map (\<lambda>((r1, t1), (r2, t2)).
             let relation = path_relation d r1 r2;
                 family_relation = find (\<lambda>rel. str_in rel (lower (st_text sent))) FAMILY_RELATIONS;
                 relation = (case family_relation of
                               Some rel \<Rightarrow> if rel \<noteq> [] then rel else relation
                             | None \<Rightarrow> relation)
             in if relation \<noteq> [] then [(t1, relation, t2)] else [])
           (pairs sent_entities)))
       (d_sents d))"

text \<open>The triples appended in one round of the innermost loop of \<^verbatim>\<open>extract_family_relations\<close>.\<close>

definition family_emit :: "string \<Rightarrow> string \<Rightarrow> string \<Rightarrow> (string \<times> string \<times> string) list" where
  "family_emit e1 relation e2 =
     (e1, relation, e2) #
     (if relation \<in> set [''sister'', ''brother''] then [(e2, relation, e1)]
      else if relation = ''parent'' then [(e2, ''child'', e1)]
      else if relation = ''child'' then [(e2, ''parent'', e1)]
      else [])"

definition persons :: "doc \<Rightarrow> sentence \<Rightarrow> span list" where
  "persons d sent = filter (\<lambda>ent. sp_label ent = ''PERSON'') (sent_ents d sent)"

definition extract_family_relations :: "doc \<Rightarrow> (string \<times> string \<times> string) list" where
  "extract_family_relations d =
     concat (map (\<lambda>sent.
        concat (map (\<lambda>(entity1, entity2).
           concat (map (\<lambda>relation.
              if str_in relation (lower (st_text sent))
              then family_emit (sp_text entity1) relation (sp_text entity2)
              else [])
             FAMILY_RELATIONS))
          (pairs (persons d sent))))
       (d_sents d))"

section \<open>The graph\<close>

text \<open>
  A \<^verbatim>\<open>networkx.Graph\<close>: nodes with an attribute dictionary, in insertion order, and
  undirected edges with an attribute dictionary, one per pair of endpoints, in the order
  in which they were first added. The attributes are the ones the two modules write or
  read; an absent key is \<open>None\<close>.
\<close>

type_synonym node = string

record node_attrs =
  n_type :: "string option"
  n_text :: "string option"
  n_entity_type :: "string option"
  n_confidence :: "real option"

record edge_attrs =
  e_relation :: "string option"
  e_weight :: "pyfloat option"

record graph =
  g_nodes :: "(node \<times> node_attrs) list"
  g_edges :: "((node \<times> node) \<times> edge_attrs) list"

datatype error = IndexError | KeyError | ValueError

definition empty_graph :: graph where
  "empty_graph = \<lparr>g_nodes = [], g_edges = []\<rparr>"

definition no_node_attrs :: node_attrs where
  "no_node_attrs = \<lparr>n_type = None, n_text = None, n_entity_type = None, n_confidence = None\<rparr>"

definition no_edge_attrs :: edge_attrs where
  "no_edge_attrs = \<lparr>e_relation = None, e_weight = None\<rparr>"

definition has_node :: "graph \<Rightarrow> node \<Rightarrow> bool" where
  "has_node G n = (map_of (g_nodes G) n \<noteq> None)"

text \<open>Updating the attribute dictionary of a key, or appending the key when it is new.\<close>

fun upsert_node :: "node \<Rightarrow> (node_attrs \<Rightarrow> node_attrs) \<Rightarrow> (node \<times> node_attrs) list \<Rightarrow> (node \<times> node_attrs) list" where
  "upsert_node n f [] = [(n, f no_node_attrs)]"
| "upsert_node n f ((m, a) # ns) =
     (if m = n then (m, f a) # ns else (m, a) # upsert_node n f ns)"

definition add_node :: "graph \<Rightarrow> node \<Rightarrow> (node_attrs \<Rightarrow> node_attrs) \<Rightarrow> graph" where
  "add_node G n f = G\<lparr>g_nodes := upsert_node n f (g_nodes G)\<rparr>"

text \<open>The graph is undirected: \<open>(u, v)\<close> and \<open>(v, u)\<close> name the same edge.\<close>

definition same_pair :: "node \<times> node \<Rightarrow> node \<times> node \<Rightarrow> bool" where
  "same_pair p q = (p = q \<or> p = (snd q, fst q))"

fun upsert_edge :: "node \<times> node \<Rightarrow> (edge_attrs \<Rightarrow> edge_attrs) \<Rightarrow> ((node \<times> node) \<times> edge_attrs) list \<Rightarrow> ((node \<times> node) \<times> edge_attrs) list" where
  "upsert_edge p f [] = [(p, f no_edge_attrs)]"
| "upsert_edge p f ((q, a) # es) =
     (if same_pair p q then (q, f a) # es else (q, a) # upsert_edge p f es)"

text \<open>\<^verbatim>\<open>G.add_edge(u, v, **attrs)\<close> adds missing endpoints, then updates the edge's attributes.\<close>

definition add_edge :: "graph \<Rightarrow> node \<Rightarrow> node \<Rightarrow> (edge_attrs \<Rightarrow> edge_attrs) \<Rightarrow> graph" where
  "add_edge G u v f =
     \<lparr>g_nodes = upsert_node v id (upsert_node u id (g_nodes G)),
      g_edges = upsert_edge (u, v) f (g_edges G)\<rparr>"

fun edge_data :: "((node \<times> node) \<times> edge_attrs) list \<Rightarrow> node \<times> node \<Rightarrow> edge_attrs option" where
  "edge_data [] p = None"
| "edge_data ((q, a) # es) p = (if same_pair p q then Some a else edge_data es p)"

definition get_edge_data :: "graph \<Rightarrow> node \<Rightarrow> node \<Rightarrow> edge_attrs option" where
  "get_edge_data G u v = edge_data (g_edges G) (u, v)"

definition neighbors :: "graph \<Rightarrow> node \<Rightarrow> node list" where
  "neighbors G n =
     concat (map (\<lambda>((u, v), _). if u = n then [v] else if v = n then [u] else []) (g_edges G))"

definition remove_edge :: "node \<times> node \<Rightarrow> ((node \<times> node) \<times> edge_attrs) list \<Rightarrow> ((node \<times> node) \<times> edge_attrs) list" where
  "remove_edge p es = filter (\<lambda>(q, _). \<not> same_pair p q) es"

definition remove_edges_from :: "graph \<Rightarrow> (node \<times> node) list \<Rightarrow> graph" where
  "remove_edges_from G ps = G\<lparr>g_edges := fold remove_edge ps (g_edges G)\<rparr>"

text \<open>The representation invariant of \<^verbatim>\<open>networkx.Graph\<close>: one edge per pair of endpoints.\<close>

fun one_edge_per_pair :: "((node \<times> node) \<times> edge_attrs) list \<Rightarrow> bool" where
  "one_edge_per_pair [] = True"
| "one_edge_per_pair ((q, a) # es) =
     ((\<forall>(p, _) \<in> set es. \<not> same_pair p q) \<and> one_edge_per_pair es)"

section \<open>Graph construction and pruning (\<^verbatim>\<open>kg.py\<close>)\<close>

definition doc_node :: "nat \<Rightarrow> node" where
  "doc_node i = ''doc_'' @ str_nat i"

definition add_entities :: "node \<Rightarrow> (string \<times> string) list \<Rightarrow> graph \<Rightarrow> graph" where
  "add_entities doc_n key_entities G =
     fold (\<lambda>(entity, entity_type) G.
        add_edge
          (if \<not> has_node G entity
           then add_node G entity (\<lambda>a. a\<lparr>n_type := Some ''entity'', n_entity_type := Some entity_type\<rparr>)
           else G)
          doc_n entity (\<lambda>a. a\<lparr>e_relation := Some ''contains''\<rparr>))
       key_entities G"

definition add_triples :: "(string \<times> string \<times> string) list \<Rightarrow> graph \<Rightarrow> graph" where
  "add_triples ts G =
     fold (\<lambda>(subj, rel, obj) G. add_edge G subj obj (\<lambda>a. a\<lparr>e_relation := Some rel\<rparr>)) ts G"

text \<open>One round of the loop over \<^verbatim>\<open>enumerate(data)\<close>.\<close>

definition process_chunk :: "(string \<Rightarrow> doc) \<Rightarrow> nat \<times> string \<Rightarrow> graph \<Rightarrow> graph" where
  "process_chunk nlp ic G =
     (let chunk = preprocess_text (snd ic);
          key_entities = extract_key_entities (nlp chunk);
          triples = extract_relations chunk (nlp chunk) key_entities;
          family_triples = extract_family_relations (nlp chunk);
          doc_n = doc_node (fst ic);
          G = add_node G doc_n (\<lambda>a. a\<lparr>n_type := Some ''document'', n_text := Some chunk\<rparr>);
          G = add_entities doc_n key_entities G
      in add_triples (triples @ family_triples) G)"

definition chunk_loop :: "(string \<Rightarrow> doc) \<Rightarrow> string list \<Rightarrow> graph" where
  "chunk_loop nlp data = fold (process_chunk nlp) (enumerate 0 data) empty_graph"

text \<open>
  \<^verbatim>\<open>[n for n, d in G.nodes(data=True) if d['type'] == 'document']\<close>; a node without
  the key raises \<^verbatim>\<open>KeyError\<close>.
\<close>

fun doc_nodes :: "(node \<times> node_attrs) list \<Rightarrow> error + node list" where
  "doc_nodes [] = Inr []"
| "doc_nodes ((n, d) # ns) =
     (case n_type d of
        None \<Rightarrow> Inl KeyError
      | Some t \<Rightarrow>
          (case doc_nodes ns of
             Inl e \<Rightarrow> Inl e
           | Inr r \<Rightarrow> Inr (if t = ''document'' then n # r else r)))"

text \<open>
  The similarity loop. \<open>cos_sim\<close> stands for \<^verbatim>\<open>util.pytorch_cos_sim(a, b).item()\<close>;
  \<^verbatim>\<open>embeddings[i]\<close> raises \<^verbatim>\<open>IndexError\<close> beyond the end of the tensor. Only a
  similarity above 0.7 is stored, so a stored weight is a number.
\<close>

fun add_similarity :: "('e \<Rightarrow> 'e \<Rightarrow> real) \<Rightarrow> 'e list \<Rightarrow> ((nat \<times> node) \<times> (nat \<times> node)) list \<Rightarrow> graph \<Rightarrow> error + graph" where
  "add_similarity cos_sim embeddings [] G = Inr G"
| "add_similarity cos_sim embeddings (((i, node1), (j, node2)) # ps) G =
     (if i < length embeddings \<and> j < length embeddings
      then let similarity = cos_sim (embeddings ! i) (embeddings ! j)
           in add_similarity cos_sim embeddings ps
                (if similarity > 7 / 10
                 then add_edge G node1 node2
                        (\<lambda>a. a\<lparr>e_relation := Some ''similar'', e_weight := Some (Num similarity)\<rparr>)
                 else G)
      else Inl IndexError)"

definition create_networkx_graph :: "(string \<Rightarrow> doc) \<Rightarrow> ('e \<Rightarrow> 'e \<Rightarrow> real) \<Rightarrow> string list \<Rightarrow> 'e list \<Rightarrow> error + graph" where
  "create_networkx_graph nlp cos_sim data embeddings =
     (let G = chunk_loop nlp data
      in case doc_nodes (g_nodes G) of
           Inl e \<Rightarrow> Inl e
         | Inr dn \<Rightarrow> add_similarity cos_sim embeddings (pairs (enumerate 0 dn)) G)"

definition prune_graph :: "graph \<Rightarrow> pyfloat \<Rightarrow> graph" where
  "prune_graph G min_edge_weight =
     (let edges_to_remove =
            map fst (filter (\<lambda>(p, d). case e_weight d of None \<Rightarrow> False
                                         | Some w \<Rightarrow> float_lt w min_edge_weight) (g_edges G))
      in remove_edges_from G edges_to_remove)"

section \<open>Retrieval (\<^verbatim>\<open>search_utils.py\<close>)\<close>

text \<open>
  The configuration object \<^verbatim>\<open>settings\<close> and the state of a \<^verbatim>\<open>SearchUtils\<close> instance.
  \<open>su_encode\<close> is \<^verbatim>\<open>model.encode([query])\<close>, with \<open>None\<close> for a model without that
  method. A numpy array is one- or two-dimensional; \<^verbatim>\<open>np.array([])\<close> is \<open>Array1 []\<close>.
\<close>

record settings =
  enable_lexical_search :: bool
  enable_semantic_search :: bool
  enable_graph_search :: bool
  enable_text_search :: bool
  top_k :: int
  entity_relevance_threshold :: real

datatype ndarray = Array1 "real list" | Array2 "real list list"

record search_utils =
  su_encode :: "(string \<Rightarrow> real list) option"
  db_embeddings :: ndarray
  db_content :: "string list"
  knowledge_graph :: graph

fun array_size :: "ndarray \<Rightarrow> nat" where
  "array_size (Array1 xs) = length xs"
| "array_size (Array2 rows) = sum_list (map length rows)"

definition dot :: "real list \<Rightarrow> real list \<Rightarrow> real" where
  "dot xs ys = sum_list (map2 (*) xs ys)"

text \<open>
  \<^verbatim>\<open>np.dot(db_embeddings, input_embedding.T).flatten()\<close> for a query embedding of shape
  \<open>(1, D)\<close>: one score per row, \<^verbatim>\<open>ValueError\<close> when the shapes are not aligned.
\<close>

fun dot_scores :: "ndarray \<Rightarrow> real list \<Rightarrow> error + real list" where
  "dot_scores (Array1 v) q = (if length v = length q then Inr [dot v q] else Inl ValueError)"
| "dot_scores (Array2 rows) q =
     (if \<forall>row \<in> set rows. length row = length q then Inr (map (\<lambda>row. dot row q) rows)
      else Inl ValueError)"

text \<open>\<^verbatim>\<open>scores.argsort()\<close>: the indices in ascending order of score.\<close>

definition argsort :: "real list \<Rightarrow> nat list" where
  "argsort scores = sort_key (\<lambda>i. scores ! i) [0..<length scores]"

text \<open>\<^verbatim>\<open>[str(db_content[idx].strip()) for idx in top_indices]\<close>.\<close>

definition content_at :: "string list \<Rightarrow> nat list \<Rightarrow> error + string list" where
  "content_at content top_indices =
     (if \<forall>idx \<in> set top_indices. idx < length content
      then Inr (map (\<lambda>idx. strip (content ! idx)) top_indices)
      else Inl IndexError)"

definition lexical_search :: "settings \<Rightarrow> search_utils \<Rightarrow> string \<Rightarrow> string list" where
  "lexical_search st su query =
     (if \<not> enable_lexical_search st then []
      else let query_words = set (findall_w (lower query));
               overlap_scores =
                 map (\<lambda>context. card (query_words \<inter> set (findall_w (lower context))))
                   (db_content su);
               top_indices =
                 slice_to (sorted_reverse (\<lambda>i. overlap_scores ! i) [0..<length overlap_scores])
                   (top_k st)
           in map (\<lambda>i. strip (db_content su ! i)) top_indices)"

definition semantic_search :: "settings \<Rightarrow> search_utils \<Rightarrow> string \<Rightarrow> error + string list" where
  "semantic_search st su query =
     (if \<not> enable_semantic_search st then Inr []
      else case su_encode su of
        Some encode \<Rightarrow>
          (case dot_scores (db_embeddings su) (encode query) of
             Inl e \<Rightarrow> Inl e
           | Inr cos_scores \<Rightarrow>
               content_at (db_content su) (rev (slice_last (argsort cos_scores) (top_k st))))
      | None \<Rightarrow>
          (let query_words = remdups (split_ws (lower query));
               scores = map (\<lambda>content. length (filter (\<lambda>word. str_in word (lower content)) query_words))
                          (db_content su);
               top_indices =
                 slice_to (sorted_reverse (\<lambda>i. scores ! i) [0..<length scores]) (top_k st)
           in content_at (db_content su) top_indices))"

text \<open>\<^verbatim>\<open>G.nodes[n]['type']\<close>: \<^verbatim>\<open>KeyError\<close> for an unknown node or a node without the key.\<close>

definition node_type :: "graph \<Rightarrow> node \<Rightarrow> error + string" where
  "node_type G n =
     (case map_of (g_nodes G) n of
        None \<Rightarrow> Inl KeyError
      | Some d \<Rightarrow> (case n_type d of None \<Rightarrow> Inl KeyError | Some t \<Rightarrow> Inr t))"

text \<open>\<^verbatim>\<open>[n for n in ns if G.nodes[n]['type'] == t]\<close>.\<close>

fun of_type :: "graph \<Rightarrow> string \<Rightarrow> node list \<Rightarrow> error + node list" where
  "of_type G t [] = Inr []"
| "of_type G t (n # ns) =
     (case node_type G n of
        Inl e \<Rightarrow> Inl e
      | Inr t' \<Rightarrow>
          (case of_type G t ns of
             Inl e \<Rightarrow> Inl e
           | Inr r \<Rightarrow> Inr (if t' = t then n # r else r)))"

fun first_document :: "graph \<Rightarrow> node list \<Rightarrow> error + node option" where
  "first_document G [] = Inr None"
| "first_document G (n # ns) =
     (case node_type G n of
        Inl e \<Rightarrow> Inl e
      | Inr t \<Rightarrow> if t = ''document'' then Inr (Some n) else first_document G ns)"

definition get_parent_document :: "graph \<Rightarrow> node \<Rightarrow> error + node option" where
  "get_parent_document G chunk_node = first_document G (neighbors G chunk_node)"

fun parent_documents :: "graph \<Rightarrow> node list \<Rightarrow> error + node option list" where
  "parent_documents G [] = Inr []"
| "parent_documents G (c # cs) =
     (case get_parent_document G c of
        Inl e \<Rightarrow> Inl e
      | Inr p \<Rightarrow> (case parent_documents G cs of Inl e \<Rightarrow> Inl e | Inr ps \<Rightarrow> Inr (p # ps)))"

text \<open>The score computed in the node loop of \<^verbatim>\<open>get_graph_context\<close>.\<close>

definition relevance_score :: "string \<Rightarrow> node \<Rightarrow> node_attrs \<Rightarrow> node list \<Rightarrow> node option list \<Rightarrow> real" where
  "relevance_score query entity_name data connected_chunks parents =
     (let confidence = (case n_confidence data of Some c \<Rightarrow> c | None \<Rightarrow> 5 / 10);
          connected_docs = set parents;
          relevance_score = (if str_in (lower entity_name) (lower query) then 1 else 0);
          relevance_score = relevance_score + real (length connected_chunks) * (1 / 10);
          relevance_score = relevance_score + real (card connected_docs) * (2 / 10)
      in relevance_score * confidence)"

fun node_scores :: "settings \<Rightarrow> graph \<Rightarrow> string \<Rightarrow> (node \<times> node_attrs) list \<Rightarrow> error + (node \<times> string \<times> node list \<times> real) list" where
  "node_scores st G query [] = Inr []"
| "node_scores st G query ((node, data) # rest) =
     (if n_type data = Some ''entity''
      then (case of_type G ''chunk'' (neighbors G node) of
              Inl e \<Rightarrow> Inl e
            | Inr connected_chunks \<Rightarrow>
                (case parent_documents G connected_chunks of
                   Inl e \<Rightarrow> Inl e
                 | Inr parents \<Rightarrow>
                     (case node_scores st G query rest of
                        Inl e \<Rightarrow> Inl e
                      | Inr scores \<Rightarrow>
                          (let entity_type = (case n_entity_type data of Some t \<Rightarrow> t | None \<Rightarrow> ''Unknown'');
                               relevance = relevance_score query node data connected_chunks parents
                           in Inr (if relevance \<ge> entity_relevance_threshold st
                                   then (node, entity_type, connected_chunks, relevance) # scores
                                   else scores)))))
      else node_scores st G query rest)"

definition node_text :: "graph \<Rightarrow> node \<Rightarrow> string" where
  "node_text G n =
     (case map_of (g_nodes G) n of
        None \<Rightarrow> []
      | Some d \<Rightarrow> (case n_text d of None \<Rightarrow> [] | Some t \<Rightarrow> t))"

definition newline :: string where
  "newline = [char_of (10 :: nat)]"

text \<open>The text bundle built for one entity in the second loop of \<^verbatim>\<open>get_graph_context\<close>.\<close>

definition context_text :: "graph \<Rightarrow> node \<times> string \<times> node list \<times> real \<Rightarrow> error + string" where
  "context_text G x =
     (case x of (entity, entity_type, connected_chunks, _) \<Rightarrow>
        let entity_info = ''Entity: '' @ entity @ '' (Type: '' @ entity_type @ '')'';
            chunk_contexts = map (node_text G) (take 3 connected_chunks)
        in case of_type G ''entity'' (neighbors G entity) of
             Inl e \<Rightarrow> Inl e
           | Inr related_entities \<Rightarrow>
               Inr (entity_info @ newline @
                    ''Related Entities: '' @ join '', '' (take 5 related_entities) @ newline @
                    ''Relevant Chunks:'' @ newline @ join newline chunk_contexts))"

fun context_loop :: "graph \<Rightarrow> (node \<times> string \<times> node list \<times> real) list \<Rightarrow> error + string list" where
  "context_loop G [] = Inr []"
| "context_loop G (x # xs) =
     (case context_text G x of
        Inl e \<Rightarrow> Inl e
      | Inr t \<Rightarrow> (case context_loop G xs of Inl e \<Rightarrow> Inl e | Inr ts \<Rightarrow> Inr (t # ts)))"

text \<open>
  \<^verbatim>\<open>extract_entities(query)\<close> is evaluated by the source for a debug message only; its
  value reaches no result, so it is left out.
\<close>

definition top_entities :: "settings \<Rightarrow> (node \<times> string \<times> node list \<times> real) list \<Rightarrow> (node \<times> string \<times> node list \<times> real) list" where
  "top_entities st scores = slice_to (sorted_reverse (\<lambda>x. snd (snd (snd x))) scores) (top_k st)"

definition get_graph_context :: "settings \<Rightarrow> search_utils \<Rightarrow> string \<Rightarrow> error + string list" where
  "get_graph_context st su query =
     (if \<not> enable_graph_search st \<or> g_nodes (knowledge_graph su) = [] then Inr []
      else case node_scores st (knowledge_graph su) query (g_nodes (knowledge_graph su)) of
             Inl e \<Rightarrow> Inl e
           | Inr scores \<Rightarrow> context_loop (knowledge_graph su) (top_entities st scores))"

definition text_search :: "settings \<Rightarrow> search_utils \<Rightarrow> string \<Rightarrow> string list" where
  "text_search st su query =
     (if \<not> enable_text_search st then []
      else let query_terms = split_ws (lower query);
               results = filter (\<lambda>content. \<exists>term \<in> set query_terms. str_in term (lower content))
                           (map strip (db_content su))
           in slice_to
                (sorted_reverse (\<lambda>x. length (filter (\<lambda>term. str_in term (lower x)) query_terms)) results)
                (top_k st))"

definition get_relevant_context :: "settings \<Rightarrow> search_utils \<Rightarrow> string \<Rightarrow> string list \<Rightarrow> error + (string list \<times> string list \<times> string list \<times> string list)" where
  "get_relevant_context st su user_input conversation_context =
     (if array_size (db_embeddings su) = 0 \<or> length (db_content su) = 0 then Inr ([], [], [], [])
      else let search_query = join '' '' (conversation_context @ [user_input]);
               lexical_results = lexical_search st su search_query
           in case semantic_search st su search_query of
                Inl e \<Rightarrow> Inl e
              | Inr semantic_results \<Rightarrow>
                  (case get_graph_context st su search_query of
                     Inl e \<Rightarrow> Inl e
                   | Inr graph_results \<Rightarrow>
                       Inr (lexical_results, semantic_results, graph_results,
                            text_search st su search_query)))"

section \<open>Reference definitions and scenarios\<close>

text \<open>
  The triples that the forward direction alone contributes for a keyword \<open>k\<close>: one
  \<open>(e1, k, e2)\<close> for every sentence whose lower-cased text contains \<open>k\<close> and every pair of
  person entities of that sentence, first before second.
\<close>

definition forward_triples :: "doc \<Rightarrow> string \<Rightarrow> (string \<times> string \<times> string) list" where
  "forward_triples d k =
     concat (map (\<lambda>sent.
        if str_in k (lower (st_text sent))
        then map (\<lambda>(entity1, entity2). (sp_text entity1, k, sp_text entity2)) (pairs (persons d sent))
        else [])
       (d_sents d))"

text \<open>
  The family-relation pass in the spec's words. For every sentence, every pair of its
  person entities in order and every keyword of the vocabulary that its lower-cased text
  contains, the triple \<open>(e1, k, e2)\<close> is emitted, followed by its reciprocal: \<open>(e2, k, e1)\<close>
  for \<open>sister\<close> and \<open>brother\<close>, \<open>(e2, child, e1)\<close> for \<open>parent\<close>, and nothing for any
  other keyword. (\<open>child\<close> is not a keyword of the vocabulary, so its rule never applies.)
\<close>

definition reciprocal_triples :: "string \<Rightarrow> string \<Rightarrow> string \<Rightarrow> (string \<times> string \<times> string) list" where
  "reciprocal_triples e1 k e2 =
     (if k \<in> {''sister'', ''brother''} then [(e2, k, e1)]
      else if k = ''parent'' then [(e2, ''child'', e1)]
      else [])"

definition family_pass :: "doc \<Rightarrow> (string \<times> string \<times> string) list" where
  "family_pass d =
     concat (map (\<lambda>sent.
        concat (map (\<lambda>(entity1, entity2).
           concat (map (\<lambda>k.
              if str_in k (lower (st_text sent))
              then (sp_text entity1, k, sp_text entity2)
                   # reciprocal_triples (sp_text entity1) k (sp_text entity2)
              else [])
             FAMILY_RELATIONS))
          (pairs (persons d sent))))
       (d_sents d))"

text \<open>
  All the triples with the label \<open>k\<close> that the pass may emit, in order: for a keyword of
  the vocabulary the forward triple of every sentence containing it and pair of persons,
  with its mirror image for \<open>sister\<close> and \<open>brother\<close>; for \<open>child\<close> the reciprocal of
  every \<open>parent\<close> triple; for any other label nothing.
\<close>

definition labelled_triples :: "doc \<Rightarrow> string \<Rightarrow> (string \<times> string \<times> string) list" where
  "labelled_triples d k =
     concat (map (\<lambda>sent.
        concat (map (\<lambda>(entity1, entity2).
           (if k \<in> set FAMILY_RELATIONS \<and> str_in k (lower (st_text sent))
            then (sp_text entity1, k, sp_text entity2)
                 # (if k \<in> {''sister'', ''brother''} then [(sp_text entity2, k, sp_text entity1)] else [])
            else [])
           @ (if k = ''child'' \<and> str_in ''parent'' (lower (st_text sent))
              then [(sp_text entity2, ''child'', sp_text entity1)] else []))
          (pairs (persons d sent))))
       (d_sents d))"

text \<open>A parsed sentence with one father and no other keyword.\<close>

definition father_doc :: doc where
  "father_doc =
     \<lparr>d_ents = [\<lparr>sp_start = 0, sp_end = 1, sp_text = ''Bob'', sp_label = ''PERSON''\<rparr>,
                \<lparr>sp_start = 5, sp_end = 6, sp_text = ''Tom'', sp_label = ''PERSON''\<rparr>],
      d_sents = [\<lparr>st_start = 0, st_end = 7, st_text = ''Bob is the father of Tom.''\<rparr>],
      d_char_span = (\<lambda>a b. None),
      d_subtree = (\<lambda>r. [])\<rparr>"

text \<open>A parsed sentence with two persons and the keywords \<open>sister\<close>, \<open>parent\<close> and \<open>aunt\<close>.\<close>

definition family_doc :: doc where
  "family_doc =
     \<lparr>d_ents = [\<lparr>sp_start = 0, sp_end = 1, sp_text = ''Mary'', sp_label = ''PERSON''\<rparr>,
                \<lparr>sp_start = 4, sp_end = 5, sp_text = ''John'', sp_label = ''PERSON''\<rparr>],
      d_sents = [\<lparr>st_start = 0, st_end = 12,
                  st_text = ''Mary, sister of John, is a parent and an aunt.''\<rparr>],
      d_char_span = (\<lambda>a b. if (a, b) = (0, 4) then Some (0, 1)
                            else if (a, b) = (16, 20) then Some (4, 5) else None),
      d_subtree = (\<lambda>r. [])\<rparr>"

text \<open>A graph with one entity link and one similarity edge of weight 0.82.\<close>

definition similar_graph :: graph where
  "similar_graph =
     \<lparr>g_nodes =
        [(''doc_0'', no_node_attrs\<lparr>n_type := Some ''document''\<rparr>),
         (''Mary'', no_node_attrs\<lparr>n_type := Some ''entity''\<rparr>),
         (''doc_1'', no_node_attrs\<lparr>n_type := Some ''document''\<rparr>)],
      g_edges =
        [((''doc_0'', ''Mary''), \<lparr>e_relation = Some ''contains'', e_weight = None\<rparr>),
         ((''doc_0'', ''doc_1''), \<lparr>e_relation = Some ''similar'', e_weight = Some (Num (82 / 100))\<rparr>)]\<rparr>"

text \<open>A retriever over three passages, and one without embeddings.\<close>

definition demo_settings :: settings where
  "demo_settings =
     \<lparr>enable_lexical_search = True, enable_semantic_search = True, enable_graph_search = True,
      enable_text_search = True, top_k = 2, entity_relevance_threshold = 6 / 10\<rparr>"

definition demo_retriever :: search_utils where
  "demo_retriever =
     \<lparr>su_encode = Some (\<lambda>q. [1, 0]),
      db_embeddings = Array2 [[1, 0], [0, 1], [1 / 2, 1 / 2]],
      db_content = ['' the cat sat '', ''a dog'', ''The cat and the dog''],
      knowledge_graph = empty_graph\<rparr>"

definition empty_retriever :: search_utils where
  "empty_retriever =
     \<lparr>su_encode = None, db_embeddings = Array1 [], db_content = [''a dog''],
      knowledge_graph = empty_graph\<rparr>"

text \<open>The overlap score of \<^verbatim>\<open>lexical_search\<close> for the passage at index \<open>i\<close>.\<close>

definition overlap :: "string \<Rightarrow> string list \<Rightarrow> nat \<Rightarrow> nat" where
  "overlap query content i =
     card (set (findall_w (lower query)) \<inter> set (findall_w (lower (content ! i))))"

definition zero_k_settings :: settings where
  "zero_k_settings = demo_settings\<lparr>top_k := 0\<rparr>"

text \<open>
  A graph in which the person \<open>Mary\<close> (confidence 0.5) is linked to two chunk nodes that
  share one parent document, beside a second person \<open>Mar\<close> of confidence 1.
\<close>

definition mary_graph :: graph where
  "mary_graph =
     \<lparr>g_nodes =
        [(''Mary'', \<lparr>n_type = Some ''entity'', n_text = None, n_entity_type = Some ''Person'',
                     n_confidence = Some (5 / 10)\<rparr>),
         (''Mar'', \<lparr>n_type = Some ''entity'', n_text = None, n_entity_type = Some ''Person'',
                    n_confidence = Some 1\<rparr>),
         (''c1'', \<lparr>n_type = Some ''chunk'', n_text = Some ''Mary went home.'', n_entity_type = None,
                   n_confidence = None\<rparr>),
         (''c2'', \<lparr>n_type = Some ''chunk'', n_text = Some ''Mary slept.'', n_entity_type = None,
                   n_confidence = None\<rparr>),
         (''d1'', \<lparr>n_type = Some ''document'', n_text = Some ''Diary'', n_entity_type = None,
                   n_confidence = None\<rparr>)],
      g_edges =
        [((''Mary'', ''c1''), no_edge_attrs), ((''Mary'', ''c2''), no_edge_attrs),
         ((''c1'', ''d1''), no_edge_attrs), ((''c2'', ''d1''), no_edge_attrs)]\<rparr>"

definition mary_retriever :: search_utils where
  "mary_retriever =
     \<lparr>su_encode = None, db_embeddings = Array1 [], db_content = [], knowledge_graph = mary_graph\<rparr>"

definition top_one_settings :: settings where
  "top_one_settings = demo_settings\<lparr>top_k := 1\<rparr>"

definition mary_entry :: "node \<times> string \<times> node list \<times> real" where
  "mary_entry = (''Mary'', ''Person'', [''c1'', ''c2''], 7 / 10)"

definition mar_entry :: "node \<times> string \<times> node list \<times> real" where
  "mar_entry = (''Mar'', ''Person'', [], 1)"

text \<open>
  The edge insertions of graph construction, in the order in which the source performs
  them: endpoints, relation label and, for a similarity edge, the weight.
\<close>

type_synonym edge_op = "node \<times> node \<times> string \<times> pyfloat option"

definition set_attrs :: "string \<Rightarrow> pyfloat option \<Rightarrow> edge_attrs \<Rightarrow> edge_attrs" where
  "set_attrs r w a =
     (case w of None \<Rightarrow> a\<lparr>e_relation := Some r\<rparr>
      | Some x \<Rightarrow> a\<lparr>e_relation := Some r, e_weight := Some x\<rparr>)"

definition apply_op :: "edge_op \<Rightarrow> ((node \<times> node) \<times> edge_attrs) list \<Rightarrow> ((node \<times> node) \<times> edge_attrs) list" where
  "apply_op op es = (case op of (u, v, r, w) \<Rightarrow> upsert_edge (u, v) (set_attrs r w) es)"

definition op_key :: "edge_op \<Rightarrow> node \<times> node" where
  "op_key op = (fst op, fst (snd op))"

definition chunk_edges :: "(string \<Rightarrow> doc) \<Rightarrow> nat \<times> string \<Rightarrow> edge_op list" where
  "chunk_edges nlp ic =
     (let chunk = preprocess_text (snd ic);
          key_entities = extract_key_entities (nlp chunk);
          triples = extract_relations chunk (nlp chunk) key_entities;
          family_triples = extract_family_relations (nlp chunk)
      in map (\<lambda>(entity, _). (doc_node (fst ic), entity, ''contains'', None)) key_entities
         @ map (\<lambda>(subj, rel, obj). (subj, obj, rel, None)) (triples @ family_triples))"

definition relation_edges :: "(string \<Rightarrow> doc) \<Rightarrow> string list \<Rightarrow> edge_op list" where
  "relation_edges nlp data = concat (map (chunk_edges nlp) (enumerate 0 data))"

definition similar_edges :: "('e \<Rightarrow> 'e \<Rightarrow> real) \<Rightarrow> 'e list \<Rightarrow> node list \<Rightarrow> edge_op list" where
  "similar_edges cos_sim embeddings dn =
     map (\<lambda>((i, node1), (j, node2)).
            (node1, node2, ''similar'', Some (Num (cos_sim (embeddings ! i) (embeddings ! j)))))
       (filter (\<lambda>((i, node1), (j, node2)). cos_sim (embeddings ! i) (embeddings ! j) > 7 / 10)
          (pairs (enumerate 0 dn)))"

text \<open>The label of the last insertion between the two endpoints of \<open>p\<close>, in either order.\<close>

fun last_label :: "edge_op list \<Rightarrow> node \<times> node \<Rightarrow> string option" where
  "last_label [] p = None"
| "last_label (op # ops) p =
     (case last_label ops p of
        Some r \<Rightarrow> Some r
      | None \<Rightarrow> if same_pair p (op_key op) then Some (fst (snd (snd op))) else None)"

text \<open>
  The node list after one round of the chunk loop: the chunk node is set, then every key
  entity that is not yet a node is appended.
\<close>

definition add_entity_node :: "string \<times> string \<Rightarrow> (node \<times> node_attrs) list \<Rightarrow> (node \<times> node_attrs) list" where
  "add_entity_node et ns =
     (if fst et \<in> fst ` set ns then ns
      else ns @ [(fst et, no_node_attrs\<lparr>n_type := Some ''entity'', n_entity_type := Some (snd et)\<rparr>)])"

definition chunk_nodes :: "(string \<Rightarrow> doc) \<Rightarrow> nat \<times> string \<Rightarrow> (node \<times> node_attrs) list \<Rightarrow> (node \<times> node_attrs) list" where
  "chunk_nodes nlp ic ns =
     fold add_entity_node (extract_key_entities (nlp (preprocess_text (snd ic))))
       (upsert_node (doc_node (fst ic))
          (\<lambda>a. a\<lparr>n_type := Some ''document'', n_text := Some (preprocess_text (snd ic))\<rparr>) ns)"

text \<open>
  The state of the node list after \<open>k\<close> chunks: distinct names, the first \<open>k\<close> chunk
  nodes present and typed \<open>document\<close>, every other node typed \<open>entity\<close>, no confidence.
\<close>

definition entry_ok :: "nat \<Rightarrow> node \<times> node_attrs \<Rightarrow> bool" where
  "entry_ok k x =
     (n_confidence (snd x) = None
      \<and> n_type (snd x) = Some (if fst x \<in> doc_node ` {..<k} then ''document'' else ''entity''))"

definition nodes_ok :: "nat \<Rightarrow> (node \<times> node_attrs) list \<Rightarrow> bool" where
  "nodes_ok k ns =
     (distinct (map fst ns) \<and> doc_node ` {..<k} \<subseteq> fst ` set ns \<and> (\<forall>x \<in> set ns. entry_ok k x))"

definition docs_of :: "(node \<times> node_attrs) list \<Rightarrow> node list" where
  "docs_of ns = map fst (filter (\<lambda>x. n_type (snd x) = Some ''document'') ns)"

text \<open>The surface forms of the key entities of a chunk.\<close>

definition chunk_entities :: "(string \<Rightarrow> doc) \<Rightarrow> string \<Rightarrow> string list" where
  "chunk_entities nlp chunk = map fst (extract_key_entities (nlp (preprocess_text chunk)))"

text \<open>No key entity of the corpus is spelled like the identifier of one of its chunk nodes.\<close>

definition no_collision :: "(string \<Rightarrow> doc) \<Rightarrow> string list \<Rightarrow> bool" where
  "no_collision nlp data =
     (\<forall>chunk \<in> set data. \<forall>entity \<in> set (chunk_entities nlp chunk).
        \<forall>k < length data. entity \<noteq> doc_node k)"

text \<open>
  A corpus of two chunks: the family sentence above and a chunk without entities, with
  embeddings of cosine similarity 0.82.
\<close>

definition plain_doc :: "string \<Rightarrow> doc" where
  "plain_doc text =
     \<lparr>d_ents = [], d_sents = [\<lparr>st_start = 0, st_end = 1, st_text = text\<rparr>],
      d_char_span = (\<lambda>a b. None), d_subtree = (\<lambda>r. [])\<rparr>"

definition family_nlp :: "string \<Rightarrow> doc" where
  "family_nlp text =
     (if text = ''Mary, sister of John, is a parent and an aunt.'' then family_doc
      else plain_doc text)"

definition family_data :: "string list" where
  "family_data = [''Mary,  sister of John, is a parent and an aunt. '', ''Nothing here.'']"

definition family_cos :: "nat \<Rightarrow> nat \<Rightarrow> real" where
  "family_cos a b = (if a = b then 1 else 82 / 100)"

definition family_graph :: graph where
  "family_graph =
     \<lparr>g_nodes =
        [(''doc_0'', \<lparr>n_type = Some ''document'',
                      n_text = Some ''Mary, sister of John, is a parent and an aunt.'',
                      n_entity_type = None, n_confidence = None\<rparr>),
         (''Mary'', \<lparr>n_type = Some ''entity'', n_text = None, n_entity_type = Some ''PERSON'',
                     n_confidence = None\<rparr>),
         (''John'', \<lparr>n_type = Some ''entity'', n_text = None, n_entity_type = Some ''PERSON'',
                     n_confidence = None\<rparr>),
         (''doc_1'', \<lparr>n_type = Some ''document'', n_text = Some ''Nothing here.'',
                      n_entity_type = None, n_confidence = None\<rparr>)],
      g_edges =
        [((''doc_0'', ''Mary''), \<lparr>e_relation = Some ''contains'', e_weight = None\<rparr>),
         ((''doc_0'', ''John''), \<lparr>e_relation = Some ''contains'', e_weight = None\<rparr>),
         ((''Mary'', ''John''), \<lparr>e_relation = Some ''aunt'', e_weight = None\<rparr>),
         ((''doc_0'', ''doc_1''), \<lparr>e_relation = Some ''similar'', e_weight = Some (Num (82 / 100))\<rparr>)]\<rparr>"

text \<open>
  A corpus of three chunks whose first chunk mentions a product called \<open>doc_2\<close>; only the
  first two embeddings are similar.
\<close>

definition collision_nlp :: "string \<Rightarrow> doc" where
  "collision_nlp text =
     (if text = ''doc_2''
      then \<lparr>d_ents = [\<lparr>sp_start = 0, sp_end = 1, sp_text = ''doc_2'', sp_label = ''PRODUCT''\<rparr>],
            d_sents = [\<lparr>st_start = 0, st_end = 1, st_text = text\<rparr>],
            d_char_span = (\<lambda>a b. None), d_subtree = (\<lambda>r. [])\<rparr>
      else plain_doc text)"

definition collision_data :: "string list" where
  "collision_data = [''doc_2'', ''b'', ''c'']"

definition collision_cos :: "nat \<Rightarrow> nat \<Rightarrow> real" where
  "collision_cos a b = (if (a = 0 \<and> b = 1) \<or> (a = 1 \<and> b = 0) then 9 / 10 else 1 / 10)"

definition collision_graph :: graph where
  "collision_graph =
     \<lparr>g_nodes =
        [(''doc_0'', \<lparr>n_type = Some ''document'', n_text = Some ''doc_2'', n_entity_type = None,
                      n_confidence = None\<rparr>),
         (''doc_2'', \<lparr>n_type = Some ''document'', n_text = Some ''c'',
                      n_entity_type = Some ''PRODUCT'', n_confidence = None\<rparr>),
         (''doc_1'', \<lparr>n_type = Some ''document'', n_text = Some ''b'', n_entity_type = None,
                      n_confidence = None\<rparr>)],
      g_edges =
        [((''doc_0'', ''doc_2''), \<lparr>e_relation = Some ''similar'', e_weight = Some (Num (9 / 10))\<rparr>)]\<rparr>"

text \<open>A graph whose only edge has the weight NaN.\<close>

definition nan_graph :: graph where
  "nan_graph =
     \<lparr>g_nodes =
        [(''doc_0'', no_node_attrs\<lparr>n_type := Some ''document''\<rparr>),
         (''doc_1'', no_node_attrs\<lparr>n_type := Some ''document''\<rparr>)],
      g_edges =
        [((''doc_0'', ''doc_1''), \<lparr>e_relation = Some ''similar'', e_weight = Some NaN\<rparr>)]\<rparr>"

definition half_threshold_settings :: settings where
  "half_threshold_settings = demo_settings\<lparr>entity_relevance_threshold := 5 / 10\<rparr>"

section \<open>The family-relation pass\<close>

lemma family_emit_symmetric:
  "(a, k, b) \<in> set (family_emit e1 rel e2) \<Longrightarrow> k \<in> {''sister'', ''brother''} \<Longrightarrow>
   (b, k, a) \<in> set (family_emit e1 rel e2)"
  by (auto simp: family_emit_def split: if_splits)

lemma family_emit_parent:
  "(a, ''parent'', b) \<in> set (family_emit e1 rel e2) \<Longrightarrow>
   (b, ''child'', a) \<in> set (family_emit e1 rel e2)"
  by (auto simp: family_emit_def split: if_splits)

lemma family_emit_child:
  "(a, ''child'', b) \<in> set (family_emit e1 rel e2) \<Longrightarrow>
   (b, ''parent'', a) \<in> set (family_emit e1 rel e2)"
  by (auto simp: family_emit_def split: if_splits)

lemma extract_family_relations_intro:
  assumes "sent \<in> set (d_sents d)" and "(e1, e2) \<in> set (pairs (persons d sent))"
    and "rel \<in> set FAMILY_RELATIONS" and "str_in rel (lower (st_text sent))"
    and "t \<in> set (family_emit (sp_text e1) rel (sp_text e2))"
  shows "t \<in> set (extract_family_relations d)"
  unfolding extract_family_relations_def using assms
  apply simp
  apply (rule bexI [of _ sent])
   apply (rule bexI [of _ "(e1, e2)"])
    apply auto
  done

lemma extract_family_relations_elim:
  assumes "t \<in> set (extract_family_relations d)"
  obtains sent e1 e2 rel where "sent \<in> set (d_sents d)"
    and "(e1, e2) \<in> set (pairs (persons d sent))"
    and "rel \<in> set FAMILY_RELATIONS" and "str_in rel (lower (st_text sent))"
    and "t \<in> set (family_emit (sp_text e1) rel (sp_text e2))"
  using assms unfolding extract_family_relations_def
  by (auto split: if_splits)

lemma filter_family_emit:
  assumes "k \<notin> {''sister'', ''brother'', ''parent'', ''child''}"
  shows "filter (\<lambda>(a, r, b). r = k) (family_emit e1 rel e2) = (if rel = k then [(e1, k, e2)] else [])"
  using assms by (auto simp: family_emit_def)

lemma filter_keyword_loop:
  assumes "k \<notin> {''sister'', ''brother'', ''parent'', ''child''}" and "distinct rs"
  shows "filter (\<lambda>(a, r, b). r = k)
           (concat (map (\<lambda>rel. if P rel then family_emit e1 rel e2 else []) rs))
         = (if k \<in> set rs \<and> P k then [(e1, k, e2)] else [])"
  using assms(2)
proof (induction rs)
  case Nil
  then show ?case by simp
next
  case (Cons r rs)
  then show ?case using filter_family_emit [OF assms(1)] by auto
qed

lemma distinct_FAMILY_RELATIONS: "distinct FAMILY_RELATIONS"
  by (simp add: FAMILY_RELATIONS_def)

lemma child_not_keyword: "''child'' \<notin> set FAMILY_RELATIONS"
  by (simp add: FAMILY_RELATIONS_def)

lemma filter_pair_loop:
  assumes "k \<notin> {''sister'', ''brother'', ''parent''}" and "k \<in> set FAMILY_RELATIONS"
  shows "filter (\<lambda>(a, r, b). r = k)
           (concat (map (\<lambda>(entity1, entity2).
              concat (map (\<lambda>rel. if P rel then family_emit (sp_text entity1) rel (sp_text entity2) else [])
                FAMILY_RELATIONS)) ps))
         = (if P k then map (\<lambda>(entity1, entity2). (sp_text entity1, k, sp_text entity2)) ps else [])"
proof -
  have k: "k \<notin> {''sister'', ''brother'', ''parent'', ''child''}"
    using assms child_not_keyword by auto
  show ?thesis
    by (induction ps)
      (auto simp: filter_keyword_loop [OF k distinct_FAMILY_RELATIONS] assms(2))
qed

lemma filter_extract_family_relations:
  assumes "k \<notin> {''sister'', ''brother'', ''parent''}" and "k \<in> set FAMILY_RELATIONS"
  shows "filter (\<lambda>(a, r, b). r = k) (extract_family_relations d) = forward_triples d k"
proof -
  have "filter (\<lambda>(a, r, b). r = k)
          (concat (map (\<lambda>sent.
             concat (map (\<lambda>(entity1, entity2).
               concat (map (\<lambda>relation.
                  if str_in relation (lower (st_text sent))
                  then family_emit (sp_text entity1) relation (sp_text entity2)
                  else [])
                 FAMILY_RELATIONS))
              (pairs (persons d sent)))) ss))
        = concat (map (\<lambda>sent.
            if str_in k (lower (st_text sent))
            then map (\<lambda>(entity1, entity2). (sp_text entity1, k, sp_text entity2)) (pairs (persons d sent))
            else []) ss)" for ss
    by (induction ss) (simp_all add: filter_pair_loop [OF assms])
  then show ?thesis
    by (simp add: extract_family_relations_def forward_triples_def)
qed

lemma family_emit_reciprocal:
  "rel \<noteq> ''child'' \<Longrightarrow> family_emit e1 rel e2 = (e1, rel, e2) # reciprocal_triples e1 rel e2"
  by (simp add: family_emit_def reciprocal_triples_def)

lemma keyword_not_child: "rel \<in> set FAMILY_RELATIONS \<Longrightarrow> rel \<noteq> ''child''"
  using child_not_keyword by blast

lemma extract_family_relations_family_pass: "extract_family_relations d = family_pass d"
proof -
  have kw: "concat (map (\<lambda>relation. if str_in relation t then family_emit a relation b else [])
                     FAMILY_RELATIONS)
        = concat (map (\<lambda>k. if str_in k t then (a, k, b) # reciprocal_triples a k b else [])
                     FAMILY_RELATIONS)"
    for t a b
  proof (rule arg_cong [where f = concat], rule map_cong [OF refl])
    fix rel assume "rel \<in> set FAMILY_RELATIONS"
    from keyword_not_child [OF this]
    show "(if str_in rel t then family_emit a rel b else [])
          = (if str_in rel t then (a, rel, b) # reciprocal_triples a rel b else [])"
      by (simp add: family_emit_reciprocal)
  qed
  show ?thesis
    by (simp only: extract_family_relations_def family_pass_def kw)
qed

lemma filter_label_family_emit:
  assumes "rel \<noteq> ''child''"
  shows "filter (\<lambda>(a, r, b). r = k) (family_emit e1 rel e2) =
           (if rel = k then (e1, k, e2) # (if k \<in> {''sister'', ''brother''} then [(e2, k, e1)] else [])
            else [])
           @ (if rel = ''parent'' \<and> k = ''child'' then [(e2, ''child'', e1)] else [])"
  using assms by (auto simp: family_emit_def)

lemma filter_label_keyword_loop:
  assumes "distinct rs" and "''child'' \<notin> set rs"
  shows "filter (\<lambda>(a, r, b). r = k)
           (concat (map (\<lambda>rel. if P rel then family_emit e1 rel e2 else []) rs))
         = (if k \<in> set rs \<and> P k
            then (e1, k, e2) # (if k \<in> {''sister'', ''brother''} then [(e2, k, e1)] else [])
            else [])
           @ (if k = ''child'' \<and> ''parent'' \<in> set rs \<and> P ''parent'' then [(e2, ''child'', e1)] else [])"
  using assms
proof (induction rs)
  case Nil
  then show ?case by simp
next
  case (Cons r rs)
  from Cons.prems have r: "r \<noteq> ''child''" and d: "distinct rs" "''child'' \<notin> set rs" "r \<notin> set rs"
    by auto
  note IH = Cons.IH [OF d(1,2)]
  show ?case
  proof (cases "k = ''child''")
    case True
    with r d IH show ?thesis
      by (auto simp: filter_label_family_emit [OF r])
  next
    case False
    with r d IH show ?thesis
      by (auto simp: filter_label_family_emit [OF r])
  qed
qed

lemma parent_keyword: "''parent'' \<in> set FAMILY_RELATIONS"
  by (simp add: FAMILY_RELATIONS_def)

lemma filter_label_extract_family_relations:
  "filter (\<lambda>(a, r, b). r = k) (extract_family_relations d) = labelled_triples d k"
proof -
  note kw = filter_label_keyword_loop [OF distinct_FAMILY_RELATIONS child_not_keyword]
  have pair: "filter (\<lambda>(a, r, b). r = k)
          (concat (map (\<lambda>(entity1, entity2).
             concat (map (\<lambda>rel. if P rel then family_emit (sp_text entity1) rel (sp_text entity2) else [])
               FAMILY_RELATIONS)) ps))
        = concat (map (\<lambda>(entity1, entity2).
           (if k \<in> set FAMILY_RELATIONS \<and> P k
            then (sp_text entity1, k, sp_text entity2)
                 # (if k \<in> {''sister'', ''brother''} then [(sp_text entity2, k, sp_text entity1)] else [])
            else [])
           @ (if k = ''child'' \<and> P ''parent''
              then [(sp_text entity2, ''child'', sp_text entity1)] else [])) ps)" for P ps
  proof (induction ps)
    case Nil
    then show ?case by simp
  next
    case (Cons p ps)
    obtain x y where p: "p = (x, y)" by (cases p)
    show ?case
      unfolding p by (simp add: Cons.IH kw parent_keyword)
  qed
  have "filter (\<lambda>(a, r, b). r = k)
          (concat (map (\<lambda>sent.
             concat (map (\<lambda>(entity1, entity2).
               concat (map (\<lambda>relation.
                  if str_in relation (lower (st_text sent))
                  then family_emit (sp_text entity1) relation (sp_text entity2)
                  else [])
                 FAMILY_RELATIONS))
              (pairs (persons d sent)))) ss))
        = concat (map (\<lambda>sent.
        concat (map (\<lambda>(entity1, entity2).
           (if k \<in> set FAMILY_RELATIONS \<and> str_in k (lower (st_text sent))
            then (sp_text entity1, k, sp_text entity2)
                 # (if k \<in> {''sister'', ''brother''} then [(sp_text entity2, k, sp_text entity1)] else [])
            else [])
           @ (if k = ''child'' \<and> str_in ''parent'' (lower (st_text sent))
              then [(sp_text entity2, ''child'', sp_text entity1)] else []))
          (pairs (persons d sent)))) ss)" for ss
    by (induction ss) (simp_all add: pair)
  then show ?thesis
    by (simp add: extract_family_relations_def labelled_triples_def)
qed

text \<open>
  C4. For every parsed chunk, the triples of \<^verbatim>\<open>extract_family_relations\<close> are closed
  under the reciprocal rules: with \<open>(a, k, b)\<close> for \<open>k\<close> one of \<open>sister\<close>, \<open>brother\<close> comes
  \<open>(b, k, a)\<close>; with \<open>(a, parent, b)\<close> comes \<open>(b, child, a)\<close>; with \<open>(a, child, b)\<close> comes
  \<open>(b, parent, a)\<close>. The pass emits exactly the forward triples with these reciprocals and
  nothing else: its output is the list \<open>family_pass\<close>, in which no keyword other than
  \<open>sister\<close>, \<open>brother\<close> and \<open>parent\<close> brings a reciprocal. Label by label: the triples
  labelled \<open>child\<close> are the reciprocals of the \<open>parent\<close> triples and no others, the
  triples labelled \<open>sister\<close> or \<open>brother\<close> are the forward triples of that keyword with
  their mirror images, and for every other keyword of the vocabulary the triples carrying
  it are the forward triples alone; no other label occurs.
\<close>

theorem family_reciprocal_rule:
  "(\<forall>a k b. (a, k, b) \<in> set (extract_family_relations d) \<longrightarrow> k \<in> {''sister'', ''brother''} \<longrightarrow>
       (b, k, a) \<in> set (extract_family_relations d))
   \<and> (\<forall>a b. (a, ''parent'', b) \<in> set (extract_family_relations d) \<longrightarrow>
       (b, ''child'', a) \<in> set (extract_family_relations d))
   \<and> (\<forall>a b. (a, ''child'', b) \<in> set (extract_family_relations d) \<longrightarrow>
       (b, ''parent'', a) \<in> set (extract_family_relations d))
   \<and> extract_family_relations d = family_pass d
   \<and> (\<forall>k. filter (\<lambda>(a, r, b). r = k) (extract_family_relations d) = labelled_triples d k)
   \<and> (\<forall>k \<in> set FAMILY_RELATIONS. k \<notin> {''sister'', ''brother'', ''parent''} \<longrightarrow>
       filter (\<lambda>(a, r, b). r = k) (extract_family_relations d) = forward_triples d k)"
proof (intro conjI allI impI ballI)
  fix a k b
  assume t: "(a, k, b) \<in> set (extract_family_relations d)" and k: "k \<in> {''sister'', ''brother''}"
  from t obtain sent e1 e2 rel where s: "sent \<in> set (d_sents d)"
    and p: "(e1, e2) \<in> set (pairs (persons d sent))"
    and r: "rel \<in> set FAMILY_RELATIONS" "str_in rel (lower (st_text sent))"
    and e: "(a, k, b) \<in> set (family_emit (sp_text e1) rel (sp_text e2))"
    by (rule extract_family_relations_elim)
  from e k have "(b, k, a) \<in> set (family_emit (sp_text e1) rel (sp_text e2))"
    by (rule family_emit_symmetric)
  with s p r show "(b, k, a) \<in> set (extract_family_relations d)"
    by (rule extract_family_relations_intro)
next
  fix a b
  assume t: "(a, ''parent'', b) \<in> set (extract_family_relations d)"
  from t obtain sent e1 e2 rel where s: "sent \<in> set (d_sents d)"
    and p: "(e1, e2) \<in> set (pairs (persons d sent))"
    and r: "rel \<in> set FAMILY_RELATIONS" "str_in rel (lower (st_text sent))"
    and e: "(a, ''parent'', b) \<in> set (family_emit (sp_text e1) rel (sp_text e2))"
    by (rule extract_family_relations_elim)
  from e have "(b, ''child'', a) \<in> set (family_emit (sp_text e1) rel (sp_text e2))"
    by (rule family_emit_parent)
  with s p r show "(b, ''child'', a) \<in> set (extract_family_relations d)"
    by (rule extract_family_relations_intro)
next
  fix a b
  assume t: "(a, ''child'', b) \<in> set (extract_family_relations d)"
  from t obtain sent e1 e2 rel where s: "sent \<in> set (d_sents d)"
    and p: "(e1, e2) \<in> set (pairs (persons d sent))"
    and r: "rel \<in> set FAMILY_RELATIONS" "str_in rel (lower (st_text sent))"
    and e: "(a, ''child'', b) \<in> set (family_emit (sp_text e1) rel (sp_text e2))"
    by (rule extract_family_relations_elim)
  from e have "(b, ''parent'', a) \<in> set (family_emit (sp_text e1) rel (sp_text e2))"
    by (rule family_emit_child)
  with s p r show "(b, ''parent'', a) \<in> set (extract_family_relations d)"
    by (rule extract_family_relations_intro)
next
  show "extract_family_relations d = family_pass d"
    by (rule extract_family_relations_family_pass)
next
  fix k
  show "filter (\<lambda>(a, r, b). r = k) (extract_family_relations d) = labelled_triples d k"
    by (rule filter_label_extract_family_relations)
next
  fix k
  assume "k \<in> set FAMILY_RELATIONS" and "k \<notin> {''sister'', ''brother'', ''parent''}"
  then show "filter (\<lambda>(a, r, b). r = k) (extract_family_relations d) = forward_triples d k"
    by (rule filter_extract_family_relations [rotated])
qed

lemma family_doc_triples:
  "extract_family_relations family_doc =
     [(''Mary'', ''sister'', ''John''), (''John'', ''sister'', ''Mary''),
      (''Mary'', ''parent'', ''John''), (''John'', ''child'', ''Mary''),
      (''Mary'', ''aunt'', ''John'')]"
  by code_simp

lemma father_out: "extract_family_relations father_doc = [(''Bob'', ''father'', ''Tom'')]"
  by code_simp

theorem family_reciprocal_rule_witness:
  "(''Mary'', ''sister'', ''John'') \<in> set (extract_family_relations family_doc)
   \<and> (''John'', ''sister'', ''Mary'') \<in> set (extract_family_relations family_doc)
   \<and> (''Mary'', ''parent'', ''John'') \<in> set (extract_family_relations family_doc)
   \<and> (''John'', ''child'', ''Mary'') \<in> set (extract_family_relations family_doc)
   \<and> ''aunt'' \<in> set FAMILY_RELATIONS \<and> ''aunt'' \<notin> {''sister'', ''brother'', ''parent''}
   \<and> forward_triples family_doc ''aunt'' = [(''Mary'', ''aunt'', ''John'')]
   \<and> family_pass father_doc = [(''Bob'', ''father'', ''Tom'')]
   \<and> labelled_triples father_doc ''child'' = []
   \<and> labelled_triples father_doc ''parent'' = []"
proof -
  note rule = family_reciprocal_rule [of family_doc]
  note father = family_reciprocal_rule [of father_doc]
  have s: "(''Mary'', ''sister'', ''John'') \<in> set (extract_family_relations family_doc)"
    and p: "(''Mary'', ''parent'', ''John'') \<in> set (extract_family_relations family_doc)"
    and c: "(''John'', ''child'', ''Mary'') \<in> set (extract_family_relations family_doc)"
    by (simp_all add: family_doc_triples)
  have k1: "''aunt'' \<in> set FAMILY_RELATIONS"
    by (simp add: FAMILY_RELATIONS_def)
  have k2: "''aunt'' \<notin> {''sister'', ''brother'', ''parent''}"
    by simp
  have sb: "''sister'' \<in> {''sister'', ''brother''}"
    by simp
  note s' = rule [THEN conjunct1, rule_format, OF s sb]
  note p' = rule [THEN conjunct2, THEN conjunct1, rule_format, OF p]
  note c' = rule [THEN conjunct2, THEN conjunct2, THEN conjunct1, rule_format, OF c]
  note f = rule [THEN conjunct2, THEN conjunct2, THEN conjunct2, THEN conjunct2, THEN conjunct2,
      rule_format, OF k1 k2]
  have "filter (\<lambda>(a, r, b). r = ''aunt'') (extract_family_relations family_doc)
        = [(''Mary'', ''aunt'', ''John'')]"
    by (simp add: family_doc_triples)
  with f have f': "forward_triples family_doc ''aunt'' = [(''Mary'', ''aunt'', ''John'')]"
    by simp
  note whole = father [THEN conjunct2, THEN conjunct2, THEN conjunct2, THEN conjunct1]
  note label = father [THEN conjunct2, THEN conjunct2, THEN conjunct2, THEN conjunct2,
      THEN conjunct1, rule_format]
  from whole have w: "family_pass father_doc = [(''Bob'', ''father'', ''Tom'')]"
    by (simp add: father_out)
  from label [of "''child''"] have l1: "labelled_triples father_doc ''child'' = []"
    by (simp add: father_out)
  from label [of "''parent''"] have l2: "labelled_triples father_doc ''parent'' = []"
    by (simp add: father_out)
  from s s' c' p' k1 k2 f' w l1 l2 show ?thesis by (intro conjI)
qed

section \<open>Pruning\<close>

lemma same_pair_refl [simp]: "same_pair p p"
  by (simp add: same_pair_def)

lemma same_pair_sym: "same_pair p q \<longleftrightarrow> same_pair q p"
  by (auto simp: same_pair_def)

lemma same_pair_trans: "same_pair p q \<Longrightarrow> same_pair q r \<Longrightarrow> same_pair p r"
  by (auto simp: same_pair_def)

lemma fold_remove_edge:
  "fold remove_edge ps es = filter (\<lambda>(q, _). \<forall>p \<in> set ps. \<not> same_pair p q) es"
  by (induction ps arbitrary: es) (auto simp: remove_edge_def intro: filter_cong)

lemma one_edge_per_pair_filter: "one_edge_per_pair es \<Longrightarrow> one_edge_per_pair (filter P es)"
  by (induction es) auto

lemma edge_data_unique:
  "one_edge_per_pair es \<Longrightarrow> (p, d) \<in> set es \<Longrightarrow> same_pair q p \<Longrightarrow> edge_data es q = Some d"
proof (induction es)
  case Nil
  then show ?case by simp
next
  case (Cons e es)
  obtain p' d' where e: "e = (p', d')" by (cases e)
  show ?case
  proof (cases "(p, d) = e")
    case True
    with Cons.prems e show ?thesis by simp
  next
    case False
    with Cons.prems have in_es: "(p, d) \<in> set es" by simp
    with Cons.prems e have "\<not> same_pair p p'" by auto
    with Cons.prems(3) have "\<not> same_pair q p'"
      using same_pair_trans same_pair_sym by blast
    with Cons e in_es show ?thesis by simp
  qed
qed

lemma one_edge_per_pair_weight:
  "one_edge_per_pair es \<Longrightarrow> (p, d) \<in> set es \<Longrightarrow> (q, d') \<in> set es \<Longrightarrow> same_pair q p \<Longrightarrow> d' = d"
  using edge_data_unique [of es p d q] edge_data_unique [of es q d' q] by simp

lemma prune_graph_edges:
  assumes "one_edge_per_pair (g_edges G)"
  shows "g_edges (prune_graph G t) =
         filter (\<lambda>(p, d). case e_weight d of None \<Rightarrow> True | Some w \<Rightarrow> \<not> float_lt w t) (g_edges G)"
proof -
  define low :: "(node \<times> node) \<times> edge_attrs \<Rightarrow> bool"
    where "low = (\<lambda>(p, d). case e_weight d of None \<Rightarrow> False | Some w \<Rightarrow> float_lt w t)"
  define ps where "ps = map fst (filter low (g_edges G))"
  have key: "(\<forall>p \<in> set ps. \<not> same_pair p q) \<longleftrightarrow> \<not> low (q, d)"
    if qd: "(q, d) \<in> set (g_edges G)" for q d
  proof
    assume keep: "\<forall>p \<in> set ps. \<not> same_pair p q"
    show "\<not> low (q, d)"
    proof
      assume "low (q, d)"
      with qd have "(q, d) \<in> set (filter low (g_edges G))" by simp
      then have "q \<in> set ps" unfolding ps_def by force
      with keep have "\<not> same_pair q q" by blast
      then show False by simp
    qed
  next
    assume ok: "\<not> low (q, d)"
    show "\<forall>p \<in> set ps. \<not> same_pair p q"
    proof (intro ballI notI)
      fix p assume "p \<in> set ps" and sp: "same_pair p q"
      then obtain d' where pd: "(p, d') \<in> set (g_edges G)" and low: "low (p, d')"
        unfolding ps_def by auto
      from one_edge_per_pair_weight [OF assms qd pd sp] have "d' = d" .
      with low ok show False by (simp add: low_def)
    qed
  qed
  have "g_edges (prune_graph G t) = filter (\<lambda>(q, _). \<forall>p \<in> set ps. \<not> same_pair p q) (g_edges G)"
    by (simp add: prune_graph_def remove_edges_from_def fold_remove_edge ps_def low_def)
  also have "\<dots> = filter (\<lambda>(p, d). case e_weight d of None \<Rightarrow> True | Some w \<Rightarrow> \<not> float_lt w t)
                      (g_edges G)"
  proof (rule filter_cong [OF refl])
    fix x assume "x \<in> set (g_edges G)"
    then show "(case x of (q, _) \<Rightarrow> \<forall>p \<in> set ps. \<not> same_pair p q)
               = (case x of (p, d) \<Rightarrow> case e_weight d of None \<Rightarrow> True | Some w \<Rightarrow> \<not> float_lt w t)"
      using key [of "fst x" "snd x"]
      by (simp add: case_prod_beta low_def split: option.splits)
  qed
  finally show ?thesis .
qed

lemma float_ge_iff: "w \<noteq> NaN \<Longrightarrow> t \<noteq> NaN \<Longrightarrow> float_ge w t \<longleftrightarrow> \<not> float_lt w t"
  by (simp add: float_ge_def)

text \<open>
  C5, as amended. For every graph \<open>G\<close> (with one edge per pair of endpoints, as
  \<^verbatim>\<open>networkx.Graph\<close> keeps it) and every threshold \<open>t\<close>: no edge of \<open>prune_graph G t\<close>
  has a weight below \<open>t\<close>, so every remaining weight is at least \<open>t\<close> whenever neither
  the weight nor \<open>t\<close> is NaN; every edge of \<open>G\<close> without a weight is still there with the
  same attributes; the remaining edges are the edges of \<open>G\<close> that have no weight below
  \<open>t\<close>, unchanged and in the same order; the nodes are untouched.
\<close>

theorem prune_graph_invariant:
  assumes "one_edge_per_pair (g_edges G)"
  shows "(\<forall>(p, d) \<in> set (g_edges (prune_graph G t)). \<forall>w. e_weight d = Some w \<longrightarrow>
            \<not> float_lt w t \<and> (w \<noteq> NaN \<and> t \<noteq> NaN \<longrightarrow> float_ge w t))
       \<and> (\<forall>(p, d) \<in> set (g_edges G). e_weight d = None \<longrightarrow>
            (p, d) \<in> set (g_edges (prune_graph G t))
            \<and> get_edge_data (prune_graph G t) (fst p) (snd p) = Some d)
       \<and> g_edges (prune_graph G t) =
           filter (\<lambda>(p, d). case e_weight d of None \<Rightarrow> True | Some w \<Rightarrow> \<not> float_lt w t) (g_edges G)
       \<and> g_nodes (prune_graph G t) = g_nodes G"
proof (intro conjI)
  note eq = prune_graph_edges [OF assms, of t]
  show "\<forall>(p, d) \<in> set (g_edges (prune_graph G t)). \<forall>w. e_weight d = Some w \<longrightarrow>
            \<not> float_lt w t \<and> (w \<noteq> NaN \<and> t \<noteq> NaN \<longrightarrow> float_ge w t)"
    unfolding eq by (auto simp: float_ge_iff)
  have uniq: "one_edge_per_pair (g_edges (prune_graph G t))"
    unfolding eq using assms by (rule one_edge_per_pair_filter)
  show "\<forall>(p, d) \<in> set (g_edges G). e_weight d = None \<longrightarrow>
            (p, d) \<in> set (g_edges (prune_graph G t))
            \<and> get_edge_data (prune_graph G t) (fst p) (snd p) = Some d"
  proof (intro ballI, clarify)
    fix a b d assume "((a, b), d) \<in> set (g_edges G)" and "e_weight d = None"
    then have m: "((a, b), d) \<in> set (g_edges (prune_graph G t))"
      unfolding eq by simp
    from edge_data_unique [OF uniq m same_pair_refl]
    show "((a, b), d) \<in> set (g_edges (prune_graph G t))
          \<and> get_edge_data (prune_graph G t) (fst (a, b)) (snd (a, b)) = Some d"
      using m by (simp add: get_edge_data_def)
  qed
  show "g_edges (prune_graph G t) =
           filter (\<lambda>(p, d). case e_weight d of None \<Rightarrow> True | Some w \<Rightarrow> \<not> float_lt w t) (g_edges G)"
    by (rule eq)
  show "g_nodes (prune_graph G t) = g_nodes G"
    by (simp add: prune_graph_def remove_edges_from_def)
qed

theorem prune_graph_invariant_witness:
  "one_edge_per_pair (g_edges similar_graph)
   \<and> g_edges (prune_graph similar_graph (Num (9 / 10)))
       = [((''doc_0'', ''Mary''), \<lparr>e_relation = Some ''contains'', e_weight = None\<rparr>)]
   \<and> g_edges (prune_graph similar_graph (Num (8 / 10))) = g_edges similar_graph
   \<and> float_ge (Num (82 / 100)) (Num (8 / 10))"
proof -
  have h: "one_edge_per_pair (g_edges similar_graph)"
    by (simp add: similar_graph_def same_pair_def)
  have e: "g_edges similar_graph =
      [((''doc_0'', ''Mary''), \<lparr>e_relation = Some ''contains'', e_weight = None\<rparr>),
       ((''doc_0'', ''doc_1''), \<lparr>e_relation = Some ''similar'', e_weight = Some (Num (82 / 100))\<rparr>)]"
    by (simp add: similar_graph_def)
  note high = prune_graph_invariant [OF h, of "Num (9 / 10)"]
  note low = prune_graph_invariant [OF h, of "Num (8 / 10)"]
  from high [THEN conjunct2, THEN conjunct2, THEN conjunct1]
  have a: "g_edges (prune_graph similar_graph (Num (9 / 10)))
       = [((''doc_0'', ''Mary''), \<lparr>e_relation = Some ''contains'', e_weight = None\<rparr>)]"
    unfolding e by simp
  from low [THEN conjunct2, THEN conjunct2, THEN conjunct1]
  have b: "g_edges (prune_graph similar_graph (Num (8 / 10))) = g_edges similar_graph"
    unfolding e by simp
  have "((''doc_0'', ''doc_1''), \<lparr>e_relation = Some ''similar'', e_weight = Some (Num (82 / 100))\<rparr>)
        \<in> set (g_edges (prune_graph similar_graph (Num (8 / 10))))"
    unfolding b e by simp
  with low [THEN conjunct1] have c: "float_ge (Num (82 / 100)) (Num (8 / 10))"
    by fastforce
  from h a b c show ?thesis by simp
qed

text \<open>
  The claim as stated fails at NaN: a NaN weight is not below the threshold, so the edge
  stays, and it is not at least the threshold either.
\<close>

theorem prune_graph_invariant_counterexample:
  "one_edge_per_pair (g_edges nan_graph)
   \<and> g_edges (prune_graph nan_graph (Num (7 / 10)))
       = [((''doc_0'', ''doc_1''), \<lparr>e_relation = Some ''similar'', e_weight = Some NaN\<rparr>)]
   \<and> \<not> float_ge NaN (Num (7 / 10))"
  by (simp add: nan_graph_def prune_graph_def remove_edges_from_def float_ge_def)

section \<open>Retrieval\<close>

subsection \<open>Descending stable sort and slices\<close>

lemma insort_key_sorted_wrt:
  fixes f :: "'a \<Rightarrow> 'k::linorder"
  assumes "sorted_wrt (\<lambda>x y. f x < f y \<or> (f x = f y \<and> Q x y)) ys" and "\<forall>y \<in> set ys. Q x y"
  shows "sorted_wrt (\<lambda>x y. f x < f y \<or> (f x = f y \<and> Q x y)) (insort_key f x ys)"
  using assms
proof (induction ys)
  case Nil
  then show ?case by simp
next
  case (Cons y ys)
  show ?case
  proof (cases "f x \<le> f y")
    case True
    with Cons.prems show ?thesis by (auto simp: set_insort_key) 
  next
    case False
    with Cons show ?thesis by (auto simp: set_insort_key)
  qed
qed

lemma sort_key_sorted_wrt:
  fixes f :: "'a \<Rightarrow> 'k::linorder"
  assumes "sorted_wrt Q xs"
  shows "sorted_wrt (\<lambda>x y. f x < f y \<or> (f x = f y \<and> Q x y)) (sort_key f xs)"
  using assms
proof (induction xs)
  case Nil
  then show ?case by simp
next
  case (Cons x xs)
  have "sort_key f (x # xs) = insort_key f x (sort_key f xs)"
    by (simp add: sort_key_def)
  with Cons show ?case
    by (simp add: insort_key_sorted_wrt)
qed

lemma sorted_reverse_ranking:
  fixes f :: "nat \<Rightarrow> 'k::linorder"
  shows "sorted_wrt (\<lambda>i j. f i > f j \<or> (f i = f j \<and> i < j)) (sorted_reverse f [0..<n])"
proof -
  have "sorted_wrt (\<lambda>x y. y < x) (rev [0..<n])"
    by (simp add: sorted_wrt_rev)
  from sort_key_sorted_wrt [OF this, of f]
  show ?thesis
    unfolding sorted_reverse_def sorted_wrt_rev by (rule sorted_wrt_mono_rel [rotated]) auto
qed

lemma distinct_sorted_reverse: "distinct (sorted_reverse f xs) = distinct xs"
  by (simp add: sorted_reverse_def)

lemma length_sorted_reverse: "length (sorted_reverse f xs) = length xs"
  by (simp add: sorted_reverse_def)

lemma set_sorted_reverse: "set (sorted_reverse f xs) = set xs"
  by (simp add: sorted_reverse_def)


lemma length_slice_to: "0 \<le> k \<Longrightarrow> int (length (slice_to xs k)) \<le> k"
  by (simp add: slice_to_def)

lemma slice_to_nonneg: "0 \<le> k \<Longrightarrow> slice_to xs k = take (nat k) xs"
  by (simp add: slice_to_def)

lemma length_slice_last: "0 < k \<Longrightarrow> int (length (slice_last xs k)) \<le> k"
  by (auto simp: slice_last_def)

lemma slice_to_all: "int (length xs) \<le> k \<Longrightarrow> slice_to xs k = xs"
  by (simp add: slice_to_def)

subsection \<open>Lexical search\<close>

text \<open>
  C9. With lexical search enabled and a non-negative \<open>top_k\<close>, \<^verbatim>\<open>lexical_search\<close> returns
  the stripped content strings at the first \<open>top_k\<close> positions of a ranking of all content
  indices in which an index comes before another exactly when its word-set overlap with
  the query is larger, or equal with the smaller index first.
\<close>

theorem lexical_search_ranking:
  assumes "enable_lexical_search st" and "0 \<le> top_k st"
  shows "\<exists>ranking.
           set ranking = {..<length (db_content su)} \<and> distinct ranking
         \<and> sorted_wrt (\<lambda>i j. overlap query (db_content su) i > overlap query (db_content su) j
                          \<or> (overlap query (db_content su) i = overlap query (db_content su) j \<and> i < j))
             ranking
         \<and> lexical_search st su query
             = map (\<lambda>i. strip (db_content su ! i)) (take (nat (top_k st)) ranking)"
proof -
  define scores where
    "scores = map (\<lambda>context. card (set (findall_w (lower query)) \<inter> set (findall_w (lower context))))
                (db_content su)"
  define ranking where
    "ranking = sorted_reverse (\<lambda>i. scores ! i) [0..<length scores]"
  have len: "length scores = length (db_content su)"
    by (simp add: scores_def)
  have sc: "scores ! i = overlap query (db_content su) i" if "i < length (db_content su)" for i
    using that by (simp add: scores_def overlap_def)
  have s: "set ranking = {..<length (db_content su)}"
    by (auto simp: ranking_def set_sorted_reverse len)
  have d: "distinct ranking"
    by (simp add: ranking_def distinct_sorted_reverse)
  have "sorted_wrt (\<lambda>i j. scores ! i > scores ! j \<or> (scores ! i = scores ! j \<and> i < j)) ranking"
    unfolding ranking_def by (rule sorted_reverse_ranking)
  then have o: "sorted_wrt (\<lambda>i j. overlap query (db_content su) i > overlap query (db_content su) j
                          \<or> (overlap query (db_content su) i = overlap query (db_content su) j \<and> i < j))
             ranking"
    by (rule sorted_wrt_mono_rel [rotated]) (use s sc in auto)
  have "lexical_search st su query
        = map (\<lambda>i. strip (db_content su ! i)) (take (nat (top_k st)) ranking)"
    using assms by (simp add: lexical_search_def Let_def slice_to_nonneg ranking_def scores_def)
  with s d o show ?thesis by blast
qed

theorem lexical_search_ranking_witness:
  "enable_lexical_search demo_settings \<and> 0 \<le> top_k demo_settings
   \<and> (\<exists>ranking.
         set ranking = {..<length (db_content demo_retriever)} \<and> distinct ranking
       \<and> sorted_wrt (\<lambda>i j. overlap ''The DOG!'' (db_content demo_retriever) i
                              > overlap ''The DOG!'' (db_content demo_retriever) j
                          \<or> (overlap ''The DOG!'' (db_content demo_retriever) i
                                = overlap ''The DOG!'' (db_content demo_retriever) j \<and> i < j))
             ranking
       \<and> [''The cat and the dog'', ''the cat sat'']
             = map (\<lambda>i. strip (db_content demo_retriever ! i)) (take (nat (top_k demo_settings)) ranking))"
proof -
  have h1: "enable_lexical_search demo_settings" and h2: "0 \<le> top_k demo_settings"
    by (simp_all add: demo_settings_def)
  have e: "lexical_search demo_settings demo_retriever ''The DOG!''
           = [''The cat and the dog'', ''the cat sat'']"
    by code_simp
  from lexical_search_ranking [OF h1 h2, of demo_retriever "''The DOG!''"] h1 h2
  show ?thesis unfolding e by (intro conjI)
qed

subsection \<open>Empty data\<close>

text \<open>
  C7. For every input and conversation context, when the stored embedding array has no
  element or the stored content list is empty, \<^verbatim>\<open>get_relevant_context\<close> returns the four
  empty lists and raises nothing.
\<close>

theorem empty_data_returns_empty:
  "array_size (db_embeddings su) = 0 \<or> db_content su = [] \<Longrightarrow>
   get_relevant_context st su user_input conversation_context = Inr ([], [], [], [])"
  by (auto simp: get_relevant_context_def)

theorem empty_data_returns_empty_witness:
  "array_size (db_embeddings empty_retriever) = 0
   \<and> get_relevant_context demo_settings empty_retriever ''dog'' [''a'', ''b''] = Inr ([], [], [], [])"
proof -
  have h: "array_size (db_embeddings empty_retriever) = 0 \<or> db_content empty_retriever = []"
    by (simp add: empty_retriever_def)
  from empty_data_returns_empty [OF h, of demo_settings "''dog''" "[''a'', ''b'']"]
  show ?thesis by (simp add: empty_retriever_def)
qed

subsection \<open>The bound of \<open>top_k\<close> results\<close>

lemma context_loop_length: "context_loop G xs = Inr ctx \<Longrightarrow> length ctx = length xs"
  by (induction xs arbitrary: ctx) (auto split: sum.splits)

lemma length_content_at: "content_at content idxs = Inr r \<Longrightarrow> length r = length idxs"
  by (auto simp: content_at_def split: if_splits)

lemma top_k_bound_positive:
  assumes "0 < top_k st"
  shows "int (length (lexical_search st su query)) \<le> top_k st"
    and "semantic_search st su query = Inr sem \<Longrightarrow> int (length sem) \<le> top_k st"
    and "get_graph_context st su query = Inr gc \<Longrightarrow> int (length gc) \<le> top_k st"
    and "int (length (text_search st su query)) \<le> top_k st"
proof -
  from assms have k: "0 \<le> top_k st" by simp
  show "int (length (lexical_search st su query)) \<le> top_k st"
    using k by (simp add: lexical_search_def Let_def length_slice_to)
  show "int (length (text_search st su query)) \<le> top_k st"
    using k by (simp add: text_search_def Let_def length_slice_to)
  show "int (length sem) \<le> top_k st" if "semantic_search st su query = Inr sem"
    using that assms k length_slice_to [OF k] length_slice_last [OF assms]
    by (auto simp: semantic_search_def Let_def dest!: length_content_at
        split: if_splits option.splits sum.splits)
  show "int (length gc) \<le> top_k st" if "get_graph_context st su query = Inr gc"
    using that k length_slice_to [OF k]
    by (auto simp: get_graph_context_def top_entities_def dest!: context_loop_length
        split: if_splits sum.splits)
qed

text \<open>
  C8. The bound of \<open>top_k\<close> results fails for \<^verbatim>\<open>semantic_search\<close> with an encoding model
  at \<open>top_k = 0\<close>: the slice \<^verbatim>\<open>[-0:]\<close> keeps every index, and all three passages come back.
  (For a positive \<open>top_k\<close> all four strategies keep the bound, see \<open>top_k_bound_positive\<close>.)
\<close>

theorem semantic_search_zero_top_k:
  "top_k zero_k_settings = 0
   \<and> semantic_search zero_k_settings demo_retriever ''cat''
       = Inr [''the cat sat'', ''The cat and the dog'', ''a dog'']"
proof
  show "top_k zero_k_settings = 0"
    by (simp add: zero_k_settings_def)
  show "semantic_search zero_k_settings demo_retriever ''cat''
       = Inr [''the cat sat'', ''The cat and the dog'', ''a dog'']"
    by code_simp
qed

subsection \<open>Graph context\<close>

lemma node_scores_tail:
  "node_scores st G query (x # ns) = Inr scores \<Longrightarrow>
   \<exists>rest. node_scores st G query ns = Inr rest \<and> set rest \<subseteq> set scores"
  by (cases x) (auto simp: Let_def split: sum.splits if_splits)

lemma node_scores_member:
  assumes "node_scores st G query ns = Inr scores"
    and "(n, d) \<in> set ns" and "n_type d = Some ''entity''"
    and "of_type G ''chunk'' (neighbors G n) = Inr chunks"
    and "parent_documents G chunks = Inr parents"
    and "entity_relevance_threshold st \<le> relevance_score query n d chunks parents"
  shows "(n, (case n_entity_type d of Some t \<Rightarrow> t | None \<Rightarrow> ''Unknown''), chunks,
          relevance_score query n d chunks parents) \<in> set scores"
  using assms(1,2)
proof (induction ns arbitrary: scores)
  case Nil
  then show ?case by simp
next
  case (Cons x ns)
  obtain m a where x: "x = (m, a)" by (cases x)
  show ?case
  proof (cases "(n, d) = x")
    case True
    with x have mn: "m = n" "a = d" by simp_all
    from Cons.prems(1) show ?thesis
      unfolding x mn using assms(3-6)
      by (auto simp: Let_def split: sum.splits if_splits)
  next
    case False
    with Cons.prems(2) have mem: "(n, d) \<in> set ns" by simp
    from node_scores_tail [OF Cons.prems(1)]
    obtain rest where rest: "node_scores st G query ns = Inr rest"
      and sub: "set rest \<subseteq> set scores"
      by blast
    from Cons.IH [OF rest mem] sub show ?thesis by blast
  qed
qed

lemma context_loop_member:
  "context_loop G xs = Inr ctx \<Longrightarrow> x \<in> set xs \<Longrightarrow> \<exists>t \<in> set ctx. context_text G x = Inr t"
proof (induction xs arbitrary: ctx)
  case Nil
  then show ?case by simp
next
  case (Cons y ys)
  from Cons.prems(1) obtain t ts where t: "context_text G y = Inr t"
    and ts: "context_loop G ys = Inr ts" and ctx: "ctx = t # ts"
    by (auto split: sum.splits)
  show ?case
  proof (cases "x = y")
    case True
    with t ctx show ?thesis by simp
  next
    case False
    with Cons.prems(2) have "x \<in> set ys" by simp
    from Cons.IH [OF ts this] ctx show ?thesis by auto
  qed
qed

lemma mary_in_mary: "str_in (lower ''Mary'') (lower ''Mary'')"
  by code_simp

text \<open>
  C2, as amended. For every graph with an entity node \<open>Mary\<close> of confidence 0.5 whose
  chunk-typed neighbours are two and whose parent-document lookups yield one distinct
  result, \<^verbatim>\<open>get_graph_context\<close> on the query \<open>Mary\<close> scores her
  \<open>(1 + 2 \<times> 0.1 + 1 \<times> 0.2) \<times> 0.5 = 0.7\<close>; at threshold 0.6 she is kept by the relevance
  filter whenever the call returns, and her bundle is among the results when no more than
  \<open>top_k\<close> entities are kept.
\<close>

theorem mary_relevance:
  assumes "(''Mary'', data) \<in> set (g_nodes (knowledge_graph su))"
    and "n_type data = Some ''entity''" and "n_confidence data = Some (5 / 10)"
    and "of_type (knowledge_graph su) ''chunk'' (neighbors (knowledge_graph su) ''Mary'') = Inr chunks"
    and "length chunks = 2"
    and "parent_documents (knowledge_graph su) chunks = Inr parents"
    and "card (set parents) = 1"
    and "entity_relevance_threshold st = 6 / 10"
  shows "relevance_score ''Mary'' ''Mary'' data chunks parents = 7 / 10
       \<and> (\<forall>ctx. enable_graph_search st \<longrightarrow> get_graph_context st su ''Mary'' = Inr ctx \<longrightarrow>
            (\<exists>scores. node_scores st (knowledge_graph su) ''Mary'' (g_nodes (knowledge_graph su)) = Inr scores
               \<and> (''Mary'', (case n_entity_type data of Some t \<Rightarrow> t | None \<Rightarrow> ''Unknown''), chunks, 7 / 10)
                    \<in> set scores
               \<and> (int (length scores) \<le> top_k st \<longrightarrow>
                    (\<exists>t \<in> set ctx.
                       context_text (knowledge_graph su)
                         (''Mary'', (case n_entity_type data of Some t \<Rightarrow> t | None \<Rightarrow> ''Unknown''),
                          chunks, 7 / 10) = Inr t))))"
proof (intro conjI allI impI)
  show rel: "relevance_score ''Mary'' ''Mary'' data chunks parents = 7 / 10"
    using assms(3,5,7) mary_in_mary by (simp add: relevance_score_def)
  fix ctx
  assume en: "enable_graph_search st" and res: "get_graph_context st su ''Mary'' = Inr ctx"
  let ?G = "knowledge_graph su"
  let ?entry = "(''Mary'', (case n_entity_type data of Some t \<Rightarrow> t | None \<Rightarrow> ''Unknown''), chunks, 7 / 10 :: real)"
  from assms(1) have ne: "g_nodes ?G \<noteq> []" by auto
  from res en ne obtain scores where sc: "node_scores st ?G ''Mary'' (g_nodes ?G) = Inr scores"
    and loop: "context_loop ?G (top_entities st scores) = Inr ctx"
    by (auto simp: get_graph_context_def split: sum.splits)
  have thr: "entity_relevance_threshold st \<le> relevance_score ''Mary'' ''Mary'' data chunks parents"
    using rel assms(8) by simp
  from node_scores_member [OF sc assms(1,2,4,6) thr] rel
  have mem: "?entry \<in> set scores" by simp
  have "\<exists>t \<in> set ctx. context_text ?G ?entry = Inr t" if "int (length scores) \<le> top_k st"
  proof -
    from that have "top_entities st scores = sorted_reverse (\<lambda>x. snd (snd (snd x))) scores"
      by (simp add: top_entities_def slice_to_all length_sorted_reverse)
    with mem have "?entry \<in> set (top_entities st scores)"
      by (simp add: set_sorted_reverse)
    with loop show ?thesis by (rule context_loop_member)
  qed
  with sc mem
  show "\<exists>scores. node_scores st ?G ''Mary'' (g_nodes ?G) = Inr scores \<and> ?entry \<in> set scores
          \<and> (int (length scores) \<le> top_k st \<longrightarrow> (\<exists>t \<in> set ctx. context_text ?G ?entry = Inr t))"
    by blast
qed

theorem mary_relevance_witness:
  "relevance_score ''Mary'' ''Mary'' (snd (hd (g_nodes mary_graph))) [''c1'', ''c2''] [Some ''d1'', Some ''d1'']
     = 7 / 10
   \<and> (\<exists>t \<in> set [''Entity: Mar (Type: Person)'' @ newline @ ''Related Entities: '' @ newline @
                  ''Relevant Chunks:'' @ newline,
                  ''Entity: Mary (Type: Person)'' @ newline @ ''Related Entities: '' @ newline @
                  ''Relevant Chunks:'' @ newline @ ''Mary went home.'' @ newline @ ''Mary slept.''].
         context_text mary_graph mary_entry = Inr t)"
proof -
  define data where "data = snd (hd (g_nodes mary_graph))"
  have kg: "knowledge_graph mary_retriever = mary_graph"
    by (simp add: mary_retriever_def)
  have a1: "(''Mary'', data) \<in> set (g_nodes (knowledge_graph mary_retriever))"
    by (simp add: data_def kg mary_graph_def)
  have a2: "n_type data = Some ''entity''" and a3: "n_confidence data = Some (5 / 10)"
    and et: "n_entity_type data = Some ''Person''"
    by (simp_all add: data_def mary_graph_def)
  have a4: "of_type (knowledge_graph mary_retriever) ''chunk''
              (neighbors (knowledge_graph mary_retriever) ''Mary'') = Inr [''c1'', ''c2'']"
    unfolding kg by code_simp
  have a5: "length [''c1'', ''c2''] = 2" by simp
  have a6: "parent_documents (knowledge_graph mary_retriever) [''c1'', ''c2'']
              = Inr [Some ''d1'', Some ''d1'']"
    unfolding kg by code_simp
  have a7: "card (set [Some ''d1'', Some ''d1'']) = 1" by simp
  have a8: "entity_relevance_threshold demo_settings = 6 / 10"
    by (simp add: demo_settings_def)
  have en: "enable_graph_search demo_settings"
    by (simp add: demo_settings_def)
  have res: "get_graph_context demo_settings mary_retriever ''Mary'' =
     Inr [''Entity: Mar (Type: Person)'' @ newline @ ''Related Entities: '' @ newline @
          ''Relevant Chunks:'' @ newline,
          ''Entity: Mary (Type: Person)'' @ newline @ ''Related Entities: '' @ newline @
          ''Relevant Chunks:'' @ newline @ ''Mary went home.'' @ newline @ ''Mary slept.'']"
    by code_simp
  have sc: "node_scores demo_settings mary_graph ''Mary'' (g_nodes mary_graph) = Inr [mary_entry, mar_entry]"
    by code_simp
  have k: "int (length [mary_entry, mar_entry]) \<le> top_k demo_settings"
    by (simp add: demo_settings_def)
  note mr = mary_relevance [OF a1 a2 a3 a4 a5 a6 a7 a8]
  from mr have r: "relevance_score ''Mary'' ''Mary'' data [''c1'', ''c2''] [Some ''d1'', Some ''d1''] = 7 / 10"
    by (rule conjunct1)
  from mr [THEN conjunct2, rule_format, OF en res]
  obtain scores where
    s1: "node_scores demo_settings (knowledge_graph mary_retriever) ''Mary''
           (g_nodes (knowledge_graph mary_retriever)) = Inr scores"
    and s2: "int (length scores) \<le> top_k demo_settings \<longrightarrow>
       (\<exists>t \<in> set [''Entity: Mar (Type: Person)'' @ newline @ ''Related Entities: '' @ newline @
                    ''Relevant Chunks:'' @ newline,
                    ''Entity: Mary (Type: Person)'' @ newline @ ''Related Entities: '' @ newline @
                    ''Relevant Chunks:'' @ newline @ ''Mary went home.'' @ newline @ ''Mary slept.''].
          context_text (knowledge_graph mary_retriever)
            (''Mary'', (case n_entity_type data of Some t \<Rightarrow> t | None \<Rightarrow> ''Unknown''),
             [''c1'', ''c2''], 7 / 10) = Inr t)"
    by blast
  from s1 sc have "scores = [mary_entry, mar_entry]" by (simp add: kg)
  with s2 k have "\<exists>t \<in> set [''Entity: Mar (Type: Person)'' @ newline @ ''Related Entities: '' @ newline @
                    ''Relevant Chunks:'' @ newline,
                    ''Entity: Mary (Type: Person)'' @ newline @ ''Related Entities: '' @ newline @
                    ''Relevant Chunks:'' @ newline @ ''Mary went home.'' @ newline @ ''Mary slept.''].
          context_text mary_graph mary_entry = Inr t"
    unfolding kg et mary_entry_def by simp
  with r show ?thesis unfolding data_def by simp
qed

text \<open>
  The claim as stated fails: the score is 0.7, not 0.65, and with \<open>top_k = 1\<close> the
  higher-scoring \<open>Mar\<close> takes the only place in the results.
\<close>

theorem mary_relevance_counterexample:
  "node_scores top_one_settings mary_graph ''Mary'' (g_nodes mary_graph) = Inr [mary_entry, mar_entry]
   \<and> snd (snd (snd mary_entry)) \<noteq> 65 / 100
   \<and> entity_relevance_threshold top_one_settings = 6 / 10
   \<and> get_graph_context top_one_settings mary_retriever ''Mary''
       = Inr [''Entity: Mar (Type: Person)'' @ newline @ ''Related Entities: '' @ newline @
              ''Relevant Chunks:'' @ newline]"
proof (intro conjI)
  show "node_scores top_one_settings mary_graph ''Mary'' (g_nodes mary_graph) = Inr [mary_entry, mar_entry]"
    by code_simp
  show "snd (snd (snd mary_entry)) \<noteq> 65 / 100"
    by (simp add: mary_entry_def)
  show "entity_relevance_threshold top_one_settings = 6 / 10"
    by (simp add: top_one_settings_def demo_settings_def)
  show "get_graph_context top_one_settings mary_retriever ''Mary''
       = Inr [''Entity: Mar (Type: Person)'' @ newline @ ''Related Entities: '' @ newline @
              ''Relevant Chunks:'' @ newline]"
    by code_simp
qed

section \<open>Graph construction\<close>

subsection \<open>Chunk node identifiers\<close>

lemma str_nat_nonempty: "str_nat n \<noteq> []"
  by (subst str_nat.simps) simp

lemma digit_char_inj: "a < 10 \<Longrightarrow> b < 10 \<Longrightarrow> digit_char a = digit_char b \<Longrightarrow> a = b"
  by (simp add: digit_char_def char_of_eq_iff take_bit_eq_mod)

lemma str_nat_inj: "str_nat m = str_nat n \<Longrightarrow> m = n"
proof (induction m arbitrary: n rule: str_nat.induct)
  case (1 m)
  show ?case
  proof (cases "m < 10")
    case m: True
    show ?thesis
    proof (cases "n < 10")
      case True
      with m "1.prems" show ?thesis
        by (simp add: str_nat.simps [of m] str_nat.simps [of n] digit_char_inj)
    next
      case False
      with m "1.prems" show ?thesis
        using str_nat_nonempty [of "n div 10"]
        by (simp add: str_nat.simps [of m] str_nat.simps [of n])
    qed
  next
    case m: False
    show ?thesis
    proof (cases "n < 10")
      case True
      with m "1.prems" show ?thesis
        using str_nat_nonempty [of "m div 10"]
        by (simp add: str_nat.simps [of m] str_nat.simps [of n])
    next
      case False
      with m "1.prems" have eq: "str_nat (m div 10) = str_nat (n div 10)"
        and d: "digit_char (m mod 10) = digit_char (n mod 10)"
        by (simp_all add: str_nat.simps [of m] str_nat.simps [of n])
      from "1.IH" [OF m eq] have "m div 10 = n div 10" .
      moreover from d have "m mod 10 = n mod 10"
        by (rule digit_char_inj [rotated 2]) simp_all
      ultimately show ?thesis
        by (metis div_mult_mod_eq)
    qed
  qed
qed

lemma doc_node_inj: "doc_node i = doc_node j \<Longrightarrow> i = j"
  by (simp add: doc_node_def str_nat_inj)

lemma inj_doc_node: "inj_on doc_node A"
  by (rule inj_onI) (rule doc_node_inj)

subsection \<open>Pairs of an enumerated list\<close>

lemma set_pairs_subset: "set (pairs xs) \<subseteq> set xs \<times> set xs"
  by (induction xs) auto

lemma nth_Cons_shift: "k < j \<Longrightarrow> (x # xs) ! (j - k) = xs ! (j - Suc k)"
proof -
  assume "k < j"
  then have "j - k = Suc (j - Suc k)" by arith
  then show ?thesis by simp
qed

lemma set_pairs_enumerate:
  "set (pairs (enumerate k xs)) =
   {((i, xs ! (i - k)), (j, xs ! (j - k))) | i j. k \<le> i \<and> i < j \<and> j < k + length xs}"
proof (induction xs arbitrary: k)
  case Nil
  then show ?case by simp
next
  case (Cons x xs)
  let ?ys = "x # xs"
  have hd: "Pair (k, x) ` set (enumerate (Suc k) xs) =
        {((i, ?ys ! (i - k)), (j, ?ys ! (j - k))) | i j. i = k \<and> i < j \<and> j < k + length ?ys}"
    (is "?L = ?R")
  proof (intro set_eqI iffI)
    fix p assume "p \<in> ?L"
    then obtain j b where q: "(j, b) \<in> set (enumerate (Suc k) xs)" and p: "p = ((k, x), (j, b))"
      by auto
    from q have j: "Suc k \<le> j" "j < length xs + Suc k" and b: "xs ! (j - Suc k) = b"
      by (simp_all add: in_set_enumerate_eq)
    from j have "k < j" by simp
    from nth_Cons_shift [OF this, of x xs] b have "?ys ! (j - k) = b" by simp
    with p j have "p = ((k, ?ys ! (k - k)), (j, ?ys ! (j - k))) \<and> k < j \<and> j < k + length ?ys"
      by simp
    then show "p \<in> ?R" by blast
  next
    fix p assume "p \<in> ?R"
    then obtain j where j: "k < j" "j < k + length ?ys"
      and p: "p = ((k, x), (j, ?ys ! (j - k)))" by auto
    from j nth_Cons_shift [OF j(1), of x xs]
    have "(j, ?ys ! (j - k)) \<in> set (enumerate (Suc k) xs)"
      by (simp add: in_set_enumerate_eq)
    with p show "p \<in> ?L" by blast
  qed
  have tl: "set (pairs (enumerate (Suc k) xs)) =
        {((i, ?ys ! (i - k)), (j, ?ys ! (j - k))) | i j. Suc k \<le> i \<and> i < j \<and> j < k + length ?ys}"
    (is "_ = ?T")
  proof -
    have "{((i, xs ! (i - Suc k)), (j, xs ! (j - Suc k))) | i j.
                 Suc k \<le> i \<and> i < j \<and> j < Suc k + length xs} = ?T"
    proof (intro set_eqI iffI)
      fix p assume "p \<in> {((i, xs ! (i - Suc k)), (j, xs ! (j - Suc k))) | i j.
                 Suc k \<le> i \<and> i < j \<and> j < Suc k + length xs}"
      then obtain i j where ij: "Suc k \<le> i" "i < j" "j < Suc k + length xs"
        and p: "p = ((i, xs ! (i - Suc k)), (j, xs ! (j - Suc k)))" by blast
      from ij have "k < i" "k < j" by simp_all
      with p have "p = ((i, ?ys ! (i - k)), (j, ?ys ! (j - k)))"
        by (simp add: nth_Cons_shift)
      with ij show "p \<in> ?T" by auto
    next
      fix p assume "p \<in> ?T"
      then obtain i j where ij: "Suc k \<le> i" "i < j" "j < k + length ?ys"
        and p: "p = ((i, ?ys ! (i - k)), (j, ?ys ! (j - k)))" by blast
      from ij have "k < i" "k < j" by simp_all
      with p have "p = ((i, xs ! (i - Suc k)), (j, xs ! (j - Suc k)))"
        by (simp add: nth_Cons_shift)
      with ij show "p \<in> {((i, xs ! (i - Suc k)), (j, xs ! (j - Suc k))) | i j.
                 Suc k \<le> i \<and> i < j \<and> j < Suc k + length xs}" by auto
    qed
    with Cons.IH [of "Suc k"] show ?thesis by simp
  qed
  have "set (pairs (enumerate k ?ys)) =
        Pair (k, x) ` set (enumerate (Suc k) xs) \<union> set (pairs (enumerate (Suc k) xs))"
    by simp
  also have "\<dots> = {((i, ?ys ! (i - k)), (j, ?ys ! (j - k))) | i j.
                      k \<le> i \<and> i < j \<and> j < k + length ?ys}"
    unfolding hd tl
  proof (intro set_eqI iffI)
    fix p
    assume "p \<in> {((i, ?ys ! (i - k)), (j, ?ys ! (j - k))) | i j. i = k \<and> i < j \<and> j < k + length ?ys}
              \<union> {((i, ?ys ! (i - k)), (j, ?ys ! (j - k))) | i j. Suc k \<le> i \<and> i < j \<and> j < k + length ?ys}"
    then obtain i j where "i = k \<or> Suc k \<le> i" "i < j" "j < k + length ?ys"
      "p = ((i, ?ys ! (i - k)), (j, ?ys ! (j - k)))" by blast
    moreover from this have "k \<le> i" by auto
    ultimately show "p \<in> {((i, ?ys ! (i - k)), (j, ?ys ! (j - k))) | i j.
                      k \<le> i \<and> i < j \<and> j < k + length ?ys}" by blast
  next
    fix p
    assume "p \<in> {((i, ?ys ! (i - k)), (j, ?ys ! (j - k))) | i j.
                      k \<le> i \<and> i < j \<and> j < k + length ?ys}"
    then obtain i j where ij: "k \<le> i" "i < j" "j < k + length ?ys"
      and p: "p = ((i, ?ys ! (i - k)), (j, ?ys ! (j - k)))" by blast
    from ij(1) have "i = k \<or> Suc k \<le> i" by auto
    with ij p
    show "p \<in> {((i, ?ys ! (i - k)), (j, ?ys ! (j - k))) | i j. i = k \<and> i < j \<and> j < k + length ?ys}
              \<union> {((i, ?ys ! (i - k)), (j, ?ys ! (j - k))) | i j. Suc k \<le> i \<and> i < j \<and> j < k + length ?ys}"
      by blast
  qed
  finally show ?case .
qed

lemma pairs_enumerate_iff:
  "((i, a), (j, b)) \<in> set (pairs (enumerate 0 xs)) \<longleftrightarrow>
   i < j \<and> j < length xs \<and> a = xs ! i \<and> b = xs ! j"
  unfolding set_pairs_enumerate by auto

subsection \<open>Node insertion\<close>

lemma fst_imageI: "(a, b) \<in> S \<Longrightarrow> a \<in> fst ` S"
  by force

lemma upsert_node_absent:
  "n \<notin> fst ` set ns \<Longrightarrow> upsert_node n f ns = ns @ [(n, f no_node_attrs)]"
  by (induction ns) auto

lemma upsert_node_id: "n \<in> fst ` set ns \<Longrightarrow> upsert_node n id ns = ns"
  by (induction ns) (auto simp: fst_imageI)

lemma fst_set_upsert_node: "fst ` set (upsert_node n f ns) = insert n (fst ` set ns)"
proof (induction ns)
  case Nil
  then show ?case by simp
next
  case (Cons x ns)
  obtain m a where x: "x = (m, a)" by (cases x)
  show ?case
  proof (cases "m = n")
    case True
    with x show ?thesis by simp
  next
    case False
    with x Cons.IH show ?thesis by (simp add: insert_commute)
  qed
qed

lemma map_fst_upsert_node:
  "map fst (upsert_node n f ns) = (if n \<in> fst ` set ns then map fst ns else map fst ns @ [n])"
proof (induction ns)
  case Nil
  then show ?case by simp
next
  case (Cons x ns)
  obtain m a where x: "x = (m, a)" by (cases x)
  show ?case
  proof (cases "m = n")
    case True
    with x show ?thesis by simp
  next
    case False
    with x Cons.IH show ?thesis by simp
  qed
qed

lemma distinct_upsert_node:
  "distinct (map fst ns) \<Longrightarrow> distinct (map fst (upsert_node n f ns))"
  by (simp add: map_fst_upsert_node)

lemma set_upsert_node:
  assumes "distinct (map fst ns)" and "(m, a) \<in> set (upsert_node n f ns)"
  shows "(m \<noteq> n \<and> (m, a) \<in> set ns)
       \<or> (m = n \<and> (\<exists>a0. a = f a0 \<and> ((n, a0) \<in> set ns \<or> (a0 = no_node_attrs \<and> n \<notin> fst ` set ns))))"
  using assms
proof (induction ns)
  case Nil
  then show ?case by simp
next
  case (Cons x ns)
  obtain k b where x: "x = (k, b)" by (cases x)
  from Cons.prems(1) x have d: "distinct (map fst ns)" and k: "k \<notin> fst ` set ns" by simp_all
  show ?case
  proof (cases "k = n")
    case True
    with Cons.prems(2) x have "(m, a) = (n, f b) \<or> (m, a) \<in> set ns" by simp
    then show ?thesis
    proof
      assume "(m, a) = (n, f b)"
      with x True show ?thesis by auto
    next
      assume mem: "(m, a) \<in> set ns"
      then have "m \<in> fst ` set ns" by (rule fst_imageI)
      with k True have "m \<noteq> n" by auto
      with mem show ?thesis by simp
    qed
  next
    case False
    with Cons.prems(2) x have "(m, a) = (k, b) \<or> (m, a) \<in> set (upsert_node n f ns)" by simp
    then show ?thesis
    proof
      assume "(m, a) = (k, b)"
      with x False show ?thesis by simp
    next
      assume "(m, a) \<in> set (upsert_node n f ns)"
      from Cons.IH [OF d this] x False show ?thesis by auto
    qed
  qed
qed

lemma has_node_iff: "has_node G n \<longleftrightarrow> n \<in> fst ` set (g_nodes G)"
  by (simp add: has_node_def map_of_eq_None_iff)

lemma g_nodes_add_node [simp]: "g_nodes (add_node G n f) = upsert_node n f (g_nodes G)"
  by (simp add: add_node_def)

lemma g_edges_add_node [simp]: "g_edges (add_node G n f) = g_edges G"
  by (simp add: add_node_def)

lemma g_nodes_add_edge [simp]:
  "g_nodes (add_edge G u v f) = upsert_node v id (upsert_node u id (g_nodes G))"
  by (simp add: add_edge_def)

lemma g_edges_add_edge [simp]: "g_edges (add_edge G u v f) = upsert_edge (u, v) f (g_edges G)"
  by (simp add: add_edge_def)

lemma g_nodes_add_edge_present:
  "u \<in> fst ` set (g_nodes G) \<Longrightarrow> v \<in> fst ` set (g_nodes G) \<Longrightarrow>
   g_nodes (add_edge G u v f) = g_nodes G"
  by (simp add: upsert_node_id)

subsection \<open>Edge insertion\<close>

lemma same_pair_cong: "same_pair p q \<Longrightarrow> same_pair p r \<longleftrightarrow> same_pair q r"
  using same_pair_sym same_pair_trans by blast

lemma fst_set_upsert_edge: "fst ` set (upsert_edge p f es) \<subseteq> insert p (fst ` set es)"
proof (induction es)
  case Nil
  then show ?case by simp
next
  case (Cons e es)
  obtain q a where e: "e = (q, a)" by (cases e)
  show ?case
  proof (cases "same_pair p q")
    case True
    with e show ?thesis by auto
  next
    case False
    with e Cons.IH show ?thesis by auto
  qed
qed

lemma set_upsert_edge:
  "(q, a) \<in> set (upsert_edge p f es) \<Longrightarrow>
   (q, a) \<in> set es \<or> (same_pair p q \<and> (\<exists>a0. a = f a0 \<and> ((q, a0) \<in> set es \<or> a0 = no_edge_attrs)))"
  by (induction es) (auto split: if_splits)

lemma one_edge_per_pair_upsert_edge:
  "one_edge_per_pair es \<Longrightarrow> one_edge_per_pair (upsert_edge p f es)"
proof (induction es)
  case Nil
  then show ?case by simp
next
  case (Cons e es)
  obtain q a where e: "e = (q, a)" by (cases e)
  show ?case
  proof (cases "same_pair p q")
    case True
    with Cons.prems e show ?thesis by simp
  next
    case False
    have "\<not> same_pair r q" if "(r, b) \<in> set (upsert_edge p f es)" for r b
    proof -
      from fst_set_upsert_edge [of p f es] that have "r = p \<or> r \<in> fst ` set es" by force
      then show ?thesis
      proof
        assume "r = p" with False show ?thesis by simp
      next
        assume "r \<in> fst ` set es"
        with Cons.prems e show ?thesis by auto
      qed
    qed
    with Cons e False show ?thesis by auto
  qed
qed

lemma edge_data_upsert_edge:
  "edge_data (upsert_edge p f es) q =
     (if same_pair q p
      then Some (f (case edge_data es p of None \<Rightarrow> no_edge_attrs | Some a \<Rightarrow> a))
      else edge_data es q)"
proof (induction es)
  case Nil
  then show ?case by simp
next
  case (Cons e es)
  obtain r a where e: "e = (r, a)" by (cases e)
  show ?case
  proof (cases "same_pair p r")
    case True
    then have "same_pair q r \<longleftrightarrow> same_pair q p"
      using same_pair_sym same_pair_trans by blast
    with True e show ?thesis by simp
  next
    case False
    then have "\<not> (same_pair q r \<and> same_pair q p)"
      using same_pair_sym same_pair_trans by blast
    with False e Cons.IH show ?thesis by auto
  qed
qed

lemma edge_data_None_iff: "edge_data es q = None \<longleftrightarrow> (\<forall>(r, a) \<in> set es. \<not> same_pair q r)"
proof (induction es)
  case Nil
  then show ?case by simp
next
  case (Cons e es)
  obtain r a where e: "e = (r, a)" by (cases e)
  show ?case
  proof (cases "same_pair q r")
    case True
    with e show ?thesis by simp
  next
    case False
    with e Cons.IH show ?thesis by simp
  qed
qed

subsection \<open>Sequences of edge insertions\<close>

lemma set_attrs_None: "set_attrs r None = (\<lambda>a. a\<lparr>e_relation := Some r\<rparr>)"
  by (rule ext) (simp add: set_attrs_def)

lemma set_attrs_Some: "set_attrs r (Some w) = (\<lambda>a. a\<lparr>e_relation := Some r, e_weight := Some w\<rparr>)"
  by (rule ext) (simp add: set_attrs_def)

lemma apply_op_relation:
  "upsert_edge (u, v) (\<lambda>a. a\<lparr>e_relation := Some r\<rparr>) es = apply_op (u, v, r, None) es"
  by (simp add: apply_op_def set_attrs_None)

lemma apply_op_similar:
  "upsert_edge (u, v) (\<lambda>a. a\<lparr>e_relation := Some r, e_weight := Some w\<rparr>) es
   = apply_op (u, v, r, Some w) es"
  by (simp add: apply_op_def set_attrs_Some)

lemma e_relation_set_attrs [simp]: "e_relation (set_attrs r w a) = Some r"
  by (simp add: set_attrs_def split: option.splits)

lemma e_weight_set_attrs [simp]:
  "e_weight (set_attrs r w a) = (case w of None \<Rightarrow> e_weight a | Some x \<Rightarrow> Some x)"
  by (simp add: set_attrs_def split: option.splits)

lemma edge_data_apply_op:
  "edge_data (apply_op op es) q =
     (if same_pair q (op_key op)
      then Some (set_attrs (fst (snd (snd op))) (snd (snd (snd op)))
                   (case edge_data es (op_key op) of None \<Rightarrow> no_edge_attrs | Some a \<Rightarrow> a))
      else edge_data es q)"
  by (cases op) (simp add: apply_op_def op_key_def edge_data_upsert_edge)

lemma one_edge_per_pair_fold_apply_op:
  "one_edge_per_pair es \<Longrightarrow> one_edge_per_pair (fold apply_op ops es)"
  by (induction ops arbitrary: es)
    (auto simp: apply_op_def one_edge_per_pair_upsert_edge split: prod.splits)

lemma last_label_append:
  "last_label (xs @ ys) p = (case last_label ys p of Some r \<Rightarrow> Some r | None \<Rightarrow> last_label xs p)"
  by (induction xs) (auto split: option.splits)

lemma relation_fold_apply_op:
  "map_option e_relation (edge_data (fold apply_op ops es) q) =
     (case last_label ops q of
        Some r \<Rightarrow> Some (Some r)
      | None \<Rightarrow> map_option e_relation (edge_data es q))"
proof (induction ops arbitrary: es)
  case Nil
  then show ?case by simp
next
  case (Cons op ops)
  show ?case
    by (simp add: Cons.IH [of "apply_op op es"] edge_data_apply_op split: option.splits)
qed

lemma edge_data_fold_apply_op_other:
  "\<forall>op \<in> set ops. \<not> same_pair q (op_key op) \<Longrightarrow> edge_data (fold apply_op ops es) q = edge_data es q"
  by (induction ops arbitrary: es) (simp_all add: edge_data_apply_op)

lemma edge_data_cong: "same_pair p q \<Longrightarrow> edge_data es p = edge_data es q"
  by (induction es) (auto dest: same_pair_cong)

lemma edge_data_fold_apply_op_same:
  assumes "\<exists>op \<in> set ops. same_pair q (op_key op)"
    and "\<forall>op \<in> set ops. same_pair q (op_key op) \<longrightarrow> snd (snd op) = (r, Some w)"
  shows "edge_data (fold apply_op ops es) q
         = Some (set_attrs r (Some w) (case edge_data es q of None \<Rightarrow> no_edge_attrs | Some a \<Rightarrow> a))"
  using assms
proof (induction ops arbitrary: es)
  case Nil
  then show ?case by simp
next
  case (Cons op ops)
  show ?case
  proof (cases "same_pair q (op_key op)")
    case hit: True
    with Cons.prems(2) have rw: "fst (snd (snd op)) = r" "snd (snd (snd op)) = Some w" by auto
    from hit have ed: "edge_data es (op_key op) = edge_data es q"
      using edge_data_cong same_pair_sym by blast
    have now: "edge_data (apply_op op es) q
          = Some (set_attrs r (Some w) (case edge_data es q of None \<Rightarrow> no_edge_attrs | Some a \<Rightarrow> a))"
      using hit by (simp add: edge_data_apply_op rw ed)
    show ?thesis
    proof (cases "\<exists>op' \<in> set ops. same_pair q (op_key op')")
      case True
      with Cons.prems(2) Cons.IH [of "apply_op op es"]
      have "edge_data (fold apply_op ops (apply_op op es)) q
            = Some (set_attrs r (Some w)
                 (case edge_data (apply_op op es) q of None \<Rightarrow> no_edge_attrs | Some a \<Rightarrow> a))"
        by simp
      then show ?thesis
        by (simp add: now set_attrs_def)
    next
      case False
      then have "edge_data (fold apply_op ops (apply_op op es)) q = edge_data (apply_op op es) q"
        by (intro edge_data_fold_apply_op_other) simp
      with now show ?thesis by simp
    qed
  next
    case miss: False
    with Cons.prems have "\<exists>op' \<in> set ops. same_pair q (op_key op')"
      and "\<forall>op' \<in> set ops. same_pair q (op_key op') \<longrightarrow> snd (snd op') = (r, Some w)"
      by auto
    from Cons.IH [OF this, of "apply_op op es"] miss show ?thesis
      by (simp add: edge_data_apply_op)
  qed
qed

lemma weight_fold_apply_op:
  assumes "(q, a) \<in> set (fold apply_op ops es)" and "e_weight a = Some w"
  shows "(\<exists>(q', a') \<in> set es. e_weight a' = Some w) \<or> (\<exists>op \<in> set ops. snd (snd (snd op)) = Some w)"
  using assms
proof (induction ops arbitrary: es)
  case Nil
  then show ?case by auto
next
  case (Cons op ops)
  from Cons.IH [of "apply_op op es"] Cons.prems
  have "(\<exists>(q', a') \<in> set (apply_op op es). e_weight a' = Some w)
        \<or> (\<exists>op \<in> set ops. snd (snd (snd op)) = Some w)" by simp
  then show ?case
  proof
    assume "\<exists>(q', a') \<in> set (apply_op op es). e_weight a' = Some w"
    then obtain q' a' where m: "(q', a') \<in> set (apply_op op es)" and w: "e_weight a' = Some w"
      by auto
    obtain u v r x where op: "op = (u, v, r, x)" by (cases op)
    from m have "(q', a') \<in> set (upsert_edge (u, v) (set_attrs r x) es)"
      by (simp add: op apply_op_def)
    from set_upsert_edge [OF this] w op show ?thesis
      by (auto split: option.splits simp: no_edge_attrs_def)
  next
    assume "\<exists>op \<in> set ops. snd (snd (snd op)) = Some w"
    then show ?thesis by auto
  qed
qed

subsection \<open>Triples link key entities\<close>

lemma entity_spans_text:
  "(r, t) \<in> set (entity_spans text d key_entities) \<Longrightarrow> t \<in> fst ` set key_entities"
  unfolding entity_spans_def
  by (auto split: option.splits if_splits intro: fst_imageI)

lemma extract_relations_endpoints:
  assumes "(s, r, obj) \<in> set (extract_relations text d key_entities)"
  shows "s \<in> fst ` set key_entities \<and> obj \<in> fst ` set key_entities"
proof -
  define S where "S = entity_spans text d key_entities"
  have sub: "set (pairs (filter Q S)) \<subseteq> set S \<times> set S" for Q
    using set_pairs_subset [of "filter Q S"] by auto
  from assms obtain Q p where p: "p \<in> set (pairs (filter Q S))"
    and sp: "snd (fst p) = s" "snd (snd p) = obj"
    unfolding extract_relations_def S_def [symmetric] Let_def
    by (fastforce split: if_splits)
  from sub [of Q] p have "p \<in> set S \<times> set S" by (rule subsetD)
  then have "fst p \<in> set S" "snd p \<in> set S" by (simp_all add: mem_Times_iff)
  then have "(fst (fst p), s) \<in> set S" "(fst (snd p), obj) \<in> set S"
    using sp by (metis prod.collapse)+
  then show ?thesis
    unfolding S_def by (simp add: entity_spans_text)
qed

lemma person_is_key_entity:
  "e \<in> set (persons d sent) \<Longrightarrow> sp_text e \<in> fst ` set (extract_key_entities d)"
  unfolding persons_def sent_ents_def extract_key_entities_def KEY_LABELS_def
  by force

lemma family_emit_endpoints:
  "(s, r, obj) \<in> set (family_emit e1 rel e2) \<Longrightarrow> s \<in> {e1, e2} \<and> obj \<in> {e1, e2}"
  by (auto simp: family_emit_def split: if_splits)

lemma extract_family_relations_endpoints:
  assumes "(s, r, obj) \<in> set (extract_family_relations d)"
  shows "s \<in> fst ` set (extract_key_entities d) \<and> obj \<in> fst ` set (extract_key_entities d)"
proof -
  from assms obtain sent e1 e2 rel where p: "(e1, e2) \<in> set (pairs (persons d sent))"
    and e: "(s, r, obj) \<in> set (family_emit (sp_text e1) rel (sp_text e2))"
    by (rule extract_family_relations_elim)
  from set_pairs_subset p have "e1 \<in> set (persons d sent)" "e2 \<in> set (persons d sent)"
    by fastforce+
  then have "sp_text e1 \<in> fst ` set (extract_key_entities d)"
    and "sp_text e2 \<in> fst ` set (extract_key_entities d)"
    by (simp_all add: person_is_key_entity)
  with family_emit_endpoints [OF e] show ?thesis by auto
qed

subsection \<open>Nodes and edges of the chunk loop\<close>

lemma g_edges_add_entities:
  "g_edges (add_entities doc_n key_entities G) =
   fold apply_op (map (\<lambda>(entity, _). (doc_n, entity, ''contains'', None)) key_entities) (g_edges G)"
  unfolding add_entities_def
  by (induction key_entities arbitrary: G) (auto simp: apply_op_relation)

lemma g_edges_add_triples:
  "g_edges (add_triples ts G) =
   fold apply_op (map (\<lambda>(subj, rel, obj). (subj, obj, rel, None)) ts) (g_edges G)"
  unfolding add_triples_def
  by (induction ts arbitrary: G) (auto simp: apply_op_relation)

lemma g_edges_process_chunk:
  "g_edges (process_chunk nlp ic G) = fold apply_op (chunk_edges nlp ic) (g_edges G)"
  by (simp add: process_chunk_def chunk_edges_def Let_def g_edges_add_triples g_edges_add_entities)

lemma g_edges_fold_process_chunk:
  "g_edges (fold (process_chunk nlp) xs G) =
   fold apply_op (concat (map (chunk_edges nlp) xs)) (g_edges G)"
  by (induction xs arbitrary: G) (simp_all add: g_edges_process_chunk)

lemma fst_set_add_entity_node: "fst ` set (add_entity_node et ns) = insert (fst et) (fst ` set ns)"
  by (auto simp: add_entity_node_def)

lemma fst_set_fold_add_entity_node:
  "fst ` set (fold add_entity_node ke ns) = fst ` set ns \<union> fst ` set ke"
  by (induction ke arbitrary: ns) (auto simp: fst_set_add_entity_node)

lemma g_nodes_add_entities:
  assumes "doc_n \<in> fst ` set (g_nodes G)"
  shows "g_nodes (add_entities doc_n key_entities G) = fold add_entity_node key_entities (g_nodes G)"
  using assms
proof (induction key_entities arbitrary: G)
  case Nil
  then show ?case by (simp add: add_entities_def)
next
  case (Cons et ke)
  obtain e t where et: "et = (e, t)" by (cases et)
  define G1 where "G1 = add_edge
          (if \<not> has_node G e
           then add_node G e (\<lambda>a. a\<lparr>n_type := Some ''entity'', n_entity_type := Some t\<rparr>)
           else G)
          doc_n e (\<lambda>a. a\<lparr>e_relation := Some ''contains''\<rparr>)"
  have step: "g_nodes G1 = add_entity_node et (g_nodes G)"
  proof (cases "e \<in> fst ` set (g_nodes G)")
    case True
    with Cons.prems show ?thesis
      by (simp add: G1_def et has_node_iff add_entity_node_def upsert_node_id)
  next
    case False
    have "upsert_node e id (upsert_node doc_n id (g_nodes G @ [(e, x)])) = g_nodes G @ [(e, x)]" for x
      using Cons.prems by (simp add: upsert_node_id)
    with False show ?thesis
      by (simp add: G1_def et has_node_iff add_entity_node_def upsert_node_absent)
  qed
  have "doc_n \<in> fst ` set (g_nodes G1)"
    using Cons.prems by (simp add: step fst_set_add_entity_node)
  from Cons.IH [OF this] step show ?case
    by (simp add: add_entities_def et G1_def)
qed

lemma g_nodes_add_triples:
  assumes "\<forall>(s, r, obj) \<in> set ts. s \<in> fst ` set (g_nodes G) \<and> obj \<in> fst ` set (g_nodes G)"
  shows "g_nodes (add_triples ts G) = g_nodes G"
  using assms unfolding add_triples_def
proof (induction ts arbitrary: G)
  case Nil
  then show ?case by simp
next
  case (Cons t ts)
  obtain s r obj where t: "t = (s, r, obj)" by (cases t)
  define G1 where "G1 = add_edge G s obj (\<lambda>a. a\<lparr>e_relation := Some r\<rparr>)"
  from Cons.prems t have "g_nodes G1 = g_nodes G"
    by (simp add: G1_def upsert_node_id)
  with Cons.prems Cons.IH [of G1] t show ?case
    by (simp add: G1_def)
qed

lemma g_nodes_process_chunk:
  "g_nodes (process_chunk nlp ic G) = chunk_nodes nlp ic (g_nodes G)"
proof -
  define chunk where "chunk = preprocess_text (snd ic)"
  define ke where "ke = extract_key_entities (nlp chunk)"
  define G1 where "G1 = add_node G (doc_node (fst ic))
      (\<lambda>a. a\<lparr>n_type := Some ''document'', n_text := Some chunk\<rparr>)"
  define G2 where "G2 = add_entities (doc_node (fst ic)) ke G1"
  have d: "doc_node (fst ic) \<in> fst ` set (g_nodes G1)"
    by (simp add: G1_def fst_set_upsert_node)
  have n2: "g_nodes G2 = fold add_entity_node ke (g_nodes G1)"
    unfolding G2_def by (rule g_nodes_add_entities [OF d])
  have names: "fst ` set ke \<subseteq> fst ` set (g_nodes G2)"
    by (simp add: n2 fst_set_fold_add_entity_node)
  have "\<forall>(s, r, obj) \<in> set (extract_relations chunk (nlp chunk) ke @ extract_family_relations (nlp chunk)).
          s \<in> fst ` set (g_nodes G2) \<and> obj \<in> fst ` set (g_nodes G2)"
    using names extract_relations_endpoints [of _ _ _ chunk "nlp chunk" ke]
      extract_family_relations_endpoints [of _ _ _ "nlp chunk"]
    unfolding ke_def by (auto; blast)
  from g_nodes_add_triples [OF this] n2
  show ?thesis
    by (simp add: process_chunk_def chunk_nodes_def Let_def chunk_def ke_def G1_def G2_def)
qed

lemma g_nodes_fold_process_chunk:
  "g_nodes (fold (process_chunk nlp) xs G) = fold (chunk_nodes nlp) xs (g_nodes G)"
  by (induction xs arbitrary: G) (simp_all add: g_nodes_process_chunk)

lemma g_nodes_chunk_loop:
  "g_nodes (chunk_loop nlp data) = fold (chunk_nodes nlp) (enumerate 0 data) []"
  by (simp add: chunk_loop_def g_nodes_fold_process_chunk empty_graph_def)

lemma g_edges_chunk_loop:
  "g_edges (chunk_loop nlp data) = fold apply_op (relation_edges nlp data) []"
  by (simp add: chunk_loop_def g_edges_fold_process_chunk empty_graph_def relation_edges_def)

subsection \<open>The node list of the chunk loop\<close>

lemma fst_set_chunk_nodes:
  "fst ` set (chunk_nodes nlp ic ns) =
   fst ` set ns \<union> insert (doc_node (fst ic)) (set (chunk_entities nlp (snd ic)))"
  by (auto simp: chunk_nodes_def chunk_entities_def fst_set_fold_add_entity_node fst_set_upsert_node)

lemma fst_set_fold_chunk_nodes:
  "fst ` set (fold (chunk_nodes nlp) xs ns) =
   fst ` set ns \<union> (\<Union>ic \<in> set xs. insert (doc_node (fst ic)) (set (chunk_entities nlp (snd ic))))"
  by (induction xs arbitrary: ns) (auto simp: fst_set_chunk_nodes)

lemma doc_node_image_Suc: "doc_node ` {..<Suc k} = insert (doc_node k) (doc_node ` {..<k})"
  by (simp add: lessThan_Suc)

lemma nodes_ok_add_doc:
  assumes "nodes_ok k ns"
  shows "nodes_ok (Suc k) (upsert_node (doc_node k)
           (\<lambda>a. a\<lparr>n_type := Some ''document'', n_text := Some c\<rparr>) ns)"
proof -
  let ?f = "\<lambda>a. a\<lparr>n_type := Some ''document'', n_text := Some c\<rparr>"
  from assms have d: "distinct (map fst ns)" and sub: "doc_node ` {..<k} \<subseteq> fst ` set ns"
    and ok: "\<forall>x \<in> set ns. entry_ok k x"
    by (simp_all add: nodes_ok_def)
  have "entry_ok (Suc k) x" if x: "x \<in> set (upsert_node (doc_node k) ?f ns)" for x
  proof -
    obtain m a where ma: "x = (m, a)" by (cases x)
    from set_upsert_node [OF d, of m a "doc_node k" ?f] x ma
    consider "m \<noteq> doc_node k" "(m, a) \<in> set ns"
      | a0 where "m = doc_node k" "a = ?f a0" "(doc_node k, a0) \<in> set ns \<or> a0 = no_node_attrs"
      by auto
    then show ?thesis
    proof cases
      case 1
      with ok have "entry_ok k (m, a)" by blast
      with 1 ma show ?thesis
        by (simp add: entry_ok_def doc_node_image_Suc)
    next
      case 2
      from 2(3) ok have "n_confidence a0 = None"
        by (auto simp: entry_ok_def no_node_attrs_def)
      with 2 ma show ?thesis
        by (simp add: entry_ok_def doc_node_image_Suc)
    qed
  qed
  with d sub show ?thesis
    by (auto simp: nodes_ok_def distinct_upsert_node fst_set_upsert_node doc_node_image_Suc)
qed

lemma nodes_ok_add_entity_node: "nodes_ok k ns \<Longrightarrow> nodes_ok k (add_entity_node et ns)"
  by (auto simp: nodes_ok_def add_entity_node_def entry_ok_def no_node_attrs_def)

lemma nodes_ok_fold_add_entity_node: "nodes_ok k ns \<Longrightarrow> nodes_ok k (fold add_entity_node ke ns)"
  by (induction ke arbitrary: ns) (simp_all add: nodes_ok_add_entity_node)

lemma nodes_ok_chunk_nodes: "nodes_ok k ns \<Longrightarrow> nodes_ok (Suc k) (chunk_nodes nlp (k, c) ns)"
  by (simp add: chunk_nodes_def nodes_ok_fold_add_entity_node nodes_ok_add_doc)

lemma nodes_ok_fold_chunk_nodes:
  "nodes_ok k ns \<Longrightarrow> nodes_ok (k + length xs) (fold (chunk_nodes nlp) (enumerate k xs) ns)"
proof (induction xs arbitrary: k ns)
  case Nil
  then show ?case by simp
next
  case (Cons x xs)
  from Cons.IH [OF nodes_ok_chunk_nodes [OF Cons.prems, of nlp x]]
  show ?case by simp
qed

lemma nodes_ok_chunk_loop: "nodes_ok (length data) (g_nodes (chunk_loop nlp data))"
  using nodes_ok_fold_chunk_nodes [of 0 "[]" data nlp]
  by (simp add: g_nodes_chunk_loop nodes_ok_def)

subsection \<open>The chunk nodes found by the similarity pass\<close>

lemma doc_nodes_typed:
  "\<forall>x \<in> set ns. n_type (snd x) \<noteq> None \<Longrightarrow> doc_nodes ns = Inr (docs_of ns)"
  by (induction ns) (auto simp: docs_of_def)

lemma nodes_ok_typed: "nodes_ok k ns \<Longrightarrow> \<forall>x \<in> set ns. n_type (snd x) \<noteq> None"
  by (simp add: nodes_ok_def entry_ok_def)

lemma set_docs_of: "nodes_ok k ns \<Longrightarrow> set (docs_of ns) = doc_node ` {..<k}"
proof
  assume ok: "nodes_ok k ns"
  show "set (docs_of ns) \<subseteq> doc_node ` {..<k}"
  proof
    fix n assume "n \<in> set (docs_of ns)"
    then obtain a where "(n, a) \<in> set ns" "n_type a = Some ''document''"
      by (auto simp: docs_of_def)
    with ok show "n \<in> doc_node ` {..<k}"
      by (auto simp: nodes_ok_def entry_ok_def split: if_splits)
  qed
next
  assume ok: "nodes_ok k ns"
  show "doc_node ` {..<k} \<subseteq> set (docs_of ns)"
  proof
    fix n assume n: "n \<in> doc_node ` {..<k}"
    with ok have "n \<in> fst ` set ns" by (auto simp: nodes_ok_def)
    then obtain a where a: "(n, a) \<in> set ns" by auto
    with ok n have "n_type a = Some ''document''"
      by (auto simp: nodes_ok_def entry_ok_def)
    with a show "n \<in> set (docs_of ns)"
      by (force simp: docs_of_def)
  qed
qed

lemma distinct_docs_of: "distinct (map fst ns) \<Longrightarrow> distinct (docs_of ns)"
  by (simp add: docs_of_def distinct_map_filter)

lemma length_docs_of: "nodes_ok k ns \<Longrightarrow> length (docs_of ns) = k"
proof -
  assume ok: "nodes_ok k ns"
  then have "distinct (docs_of ns)" by (simp add: nodes_ok_def distinct_docs_of)
  then have "length (docs_of ns) = card (set (docs_of ns))"
    by (simp add: distinct_card)
  also have "\<dots> = card (doc_node ` {..<k})"
    by (simp add: set_docs_of [OF ok])
  also have "\<dots> = k"
    by (simp add: card_image inj_doc_node)
  finally show ?thesis .
qed

subsection \<open>The edge insertions of the chunk loop\<close>

lemma chunk_edges_op:
  assumes "op \<in> set (chunk_edges nlp ic)"
  shows "fst (op_key op) \<in> insert (doc_node (fst ic)) (set (chunk_entities nlp (snd ic)))"
    and "snd (op_key op) \<in> set (chunk_entities nlp (snd ic))"
    and "snd (snd (snd op)) = None"
proof -
  define chunk where "chunk = preprocess_text (snd ic)"
  define ke where "ke = extract_key_entities (nlp chunk)"
  have names: "set (chunk_entities nlp (snd ic)) = fst ` set ke"
    by (simp add: chunk_entities_def ke_def chunk_def)
  from assms consider e t where "(e, t) \<in> set ke" "op = (doc_node (fst ic), e, ''contains'', None)"
    | s r obj where "(s, r, obj) \<in> set (extract_relations chunk (nlp chunk) ke)" "op = (s, obj, r, None)"
    | s r obj where "(s, r, obj) \<in> set (extract_family_relations (nlp chunk))" "op = (s, obj, r, None)"
    unfolding chunk_edges_def Let_def chunk_def [symmetric] ke_def [symmetric] by auto
  then have "fst (op_key op) \<in> insert (doc_node (fst ic)) (fst ` set ke)
           \<and> snd (op_key op) \<in> fst ` set ke \<and> snd (snd (snd op)) = None"
  proof cases
    case 1
    then show ?thesis by (simp add: op_key_def fst_imageI)
  next
    case 2
    with extract_relations_endpoints [OF 2(1)] show ?thesis by (simp add: op_key_def)
  next
    case 3
    with extract_family_relations_endpoints [OF 3(1)] show ?thesis
      by (simp add: op_key_def ke_def)
  qed
  then show "fst (op_key op) \<in> insert (doc_node (fst ic)) (set (chunk_entities nlp (snd ic)))"
    and "snd (op_key op) \<in> set (chunk_entities nlp (snd ic))"
    and "snd (snd (snd op)) = None"
    by (simp_all add: names)
qed

lemma relation_edges_op:
  assumes "op \<in> set (relation_edges nlp data)"
  shows "\<exists>i < length data.
           fst (op_key op) \<in> insert (doc_node i) (set (chunk_entities nlp (data ! i)))
         \<and> snd (op_key op) \<in> set (chunk_entities nlp (data ! i))
         \<and> snd (snd (snd op)) = None"
proof -
  from assms obtain ic where ic: "ic \<in> set (enumerate 0 data)" and op: "op \<in> set (chunk_edges nlp ic)"
    by (auto simp: relation_edges_def)
  from ic have "fst ic < length data" "snd ic = data ! fst ic"
    by (simp_all add: in_set_enumerate_eq)
  with chunk_edges_op [OF op] show ?thesis by auto
qed

lemma fst_set_fold_apply_op:
  "fst ` set (fold apply_op ops es) \<subseteq> fst ` set es \<union> op_key ` set ops"
proof (induction ops arbitrary: es)
  case Nil
  then show ?case by simp
next
  case (Cons op ops)
  obtain u v r w where op: "op = (u, v, r, w)" by (cases op)
  have "fst ` set (apply_op op es) \<subseteq> insert (op_key op) (fst ` set es)"
    using fst_set_upsert_edge [of "(u, v)" "set_attrs r w" es]
    by (simp add: op apply_op_def op_key_def)
  with Cons.IH [of "apply_op op es"] show ?case by auto
qed

subsection \<open>The similarity pass\<close>

lemma add_similarity_Inr:
  assumes "\<forall>((i, n1), (j, n2)) \<in> set ps.
             i < length embeddings \<and> j < length embeddings
             \<and> n1 \<in> fst ` set (g_nodes G) \<and> n2 \<in> fst ` set (g_nodes G)"
  shows "add_similarity cos_sim embeddings ps G =
         Inr \<lparr>g_nodes = g_nodes G,
              g_edges = fold apply_op
                (map (\<lambda>((i, node1), (j, node2)).
                        (node1, node2, ''similar'', Some (Num (cos_sim (embeddings ! i) (embeddings ! j)))))
                   (filter (\<lambda>((i, node1), (j, node2)). cos_sim (embeddings ! i) (embeddings ! j) > 7 / 10) ps))
                (g_edges G)\<rparr>"
proof -
  define F :: "(nat \<times> node) \<times> (nat \<times> node) \<Rightarrow> edge_op"
    where "F = (\<lambda>((i, node1), (j, node2)).
                  (node1, node2, ''similar'', Some (Num (cos_sim (embeddings ! i) (embeddings ! j)))))"
  define P :: "(nat \<times> node) \<times> (nat \<times> node) \<Rightarrow> bool"
    where "P = (\<lambda>((i, node1), (j, node2)). cos_sim (embeddings ! i) (embeddings ! j) > 7 / 10)"
  have "add_similarity cos_sim embeddings ps G =
         Inr \<lparr>g_nodes = g_nodes G, g_edges = fold apply_op (map F (filter P ps)) (g_edges G)\<rparr>"
    using assms
  proof (induction ps arbitrary: G)
    case Nil
    then show ?case by simp
  next
    case (Cons p ps)
    obtain i n1 j n2 where p: "p = ((i, n1), (j, n2))" by (cases p) auto
    from Cons.prems p have ij: "i < length embeddings" "j < length embeddings"
      and n: "n1 \<in> fst ` set (g_nodes G)" "n2 \<in> fst ` set (g_nodes G)" by auto
    define s where "s = cos_sim (embeddings ! i) (embeddings ! j)"
    define G1 where "G1 = (if P p
       then add_edge G n1 n2 (\<lambda>a. a\<lparr>e_relation := Some ''similar'', e_weight := Some (Num s)\<rparr>) else G)"
    have step: "add_similarity cos_sim embeddings (p # ps) G = add_similarity cos_sim embeddings ps G1"
      using ij by (simp add: p G1_def P_def s_def Let_def)
    have nodes: "g_nodes G1 = g_nodes G"
      using n by (simp add: G1_def upsert_node_id)
    have edges: "g_edges G1 = (if P p then apply_op (F p) (g_edges G) else g_edges G)"
      by (simp add: G1_def apply_op_similar F_def p s_def)
    have "\<forall>((i, n1), (j, n2)) \<in> set ps.
               i < length embeddings \<and> j < length embeddings
               \<and> n1 \<in> fst ` set (g_nodes G1) \<and> n2 \<in> fst ` set (g_nodes G1)"
      using Cons.prems by (simp add: nodes)
    from Cons.IH [OF this] have "add_similarity cos_sim embeddings ps G1 =
         Inr \<lparr>g_nodes = g_nodes G, g_edges = fold apply_op (map F (filter P ps)) (g_edges G1)\<rparr>"
      by (simp add: nodes)
    also have "fold apply_op (map F (filter P ps)) (g_edges G1)
               = fold apply_op (map F (filter P (p # ps))) (g_edges G)"
      by (simp add: edges)
    finally show ?case by (simp only: step)
  qed
  then show ?thesis by (simp only: F_def P_def)
qed

lemma add_similarity_Inl:
  assumes "\<exists>((i, n1), (j, n2)) \<in> set ps. \<not> (i < length embeddings \<and> j < length embeddings)"
  shows "add_similarity cos_sim embeddings ps G = Inl IndexError"
  using assms
proof (induction ps arbitrary: G)
  case Nil
  then show ?case by simp
next
  case (Cons p ps)
  obtain i n1 j n2 where p: "p = ((i, n1), (j, n2))" by (cases p) auto
  show ?case
  proof (cases "i < length embeddings \<and> j < length embeddings")
    case True
    with Cons.prems p
    have "\<exists>((i, n1), (j, n2)) \<in> set ps. \<not> (i < length embeddings \<and> j < length embeddings)"
      by auto
    from Cons.IH [OF this] True show ?thesis
      by (simp add: p Let_def)
  next
    case False
    then show ?thesis by (auto simp: p)
  qed
qed

lemma doc_nodes_chunk_loop:
  "doc_nodes (g_nodes (chunk_loop nlp data)) = Inr (docs_of (g_nodes (chunk_loop nlp data)))"
  by (intro doc_nodes_typed nodes_ok_typed) (rule nodes_ok_chunk_loop)

lemma length_docs_chunk_loop: "length (docs_of (g_nodes (chunk_loop nlp data))) = length data"
  by (rule length_docs_of) (rule nodes_ok_chunk_loop)

lemma docs_are_nodes: "set (docs_of ns) \<subseteq> fst ` set ns"
  by (auto simp: docs_of_def)

lemma create_networkx_graph_result:
  assumes "length data \<le> 1 \<or> length data \<le> length embeddings"
  shows "create_networkx_graph nlp cos_sim data embeddings =
         Inr \<lparr>g_nodes = g_nodes (chunk_loop nlp data),
              g_edges = fold apply_op
                (similar_edges cos_sim embeddings (docs_of (g_nodes (chunk_loop nlp data))))
                (g_edges (chunk_loop nlp data))\<rparr>"
proof -
  define G where "G = chunk_loop nlp data"
  define dn where "dn = docs_of (g_nodes G)"
  have len: "length dn = length data"
    unfolding dn_def G_def by (rule length_docs_chunk_loop)
  have "\<forall>((i, n1), (j, n2)) \<in> set (pairs (enumerate 0 dn)).
             i < length embeddings \<and> j < length embeddings
             \<and> n1 \<in> fst ` set (g_nodes G) \<and> n2 \<in> fst ` set (g_nodes G)"
  proof (clarify, intro conjI)
    fix i n1 j n2 assume "((i, n1), (j, n2)) \<in> set (pairs (enumerate 0 dn))"
    then have ij: "i < j" "j < length dn" and n: "n1 = dn ! i" "n2 = dn ! j"
      by (simp_all add: pairs_enumerate_iff)
    from ij len assms show "i < length embeddings" "j < length embeddings" by auto
    from ij n have "n1 \<in> set dn" "n2 \<in> set dn" by simp_all
    with docs_are_nodes [of "g_nodes G"]
    show "n1 \<in> fst ` set (g_nodes G)" "n2 \<in> fst ` set (g_nodes G)"
      unfolding dn_def by blast+
  qed
  from add_similarity_Inr [OF this, of cos_sim]
  show ?thesis
    unfolding create_networkx_graph_def Let_def G_def [symmetric]
    by (simp add: doc_nodes_chunk_loop [of nlp data, folded G_def] dn_def [symmetric] similar_edges_def)
qed

lemma create_networkx_graph_error:
  assumes "2 \<le> length data" and "length embeddings < length data"
  shows "create_networkx_graph nlp cos_sim data embeddings = Inl IndexError"
proof -
  define G where "G = chunk_loop nlp data"
  define dn where "dn = docs_of (g_nodes G)"
  have len: "length dn = length data"
    unfolding dn_def G_def by (rule length_docs_chunk_loop)
  from assms len have "((0, dn ! 0), (length data - 1, dn ! (length data - 1)))
        \<in> set (pairs (enumerate 0 dn))"
    by (simp add: pairs_enumerate_iff)
  moreover from assms have "\<not> (0 < length embeddings \<and> length data - 1 < length embeddings)"
    by auto
  ultimately have "\<exists>((i, n1), (j, n2)) \<in> set (pairs (enumerate 0 dn)).
                     \<not> (i < length embeddings \<and> j < length embeddings)"
    by blast
  from add_similarity_Inl [OF this, of cos_sim G]
  show ?thesis
    unfolding create_networkx_graph_def Let_def G_def [symmetric]
    by (simp add: doc_nodes_chunk_loop [of nlp data, folded G_def] dn_def [symmetric])
qed

text \<open>
  C1, as amended. \<^verbatim>\<open>create_networkx_graph\<close> checks nothing about its input and has no
  \<^verbatim>\<open>InvalidInput\<close> error. With two or more chunks and fewer embeddings than chunks the
  similarity pass raises \<^verbatim>\<open>IndexError\<close>; with at most one chunk, or with at least as
  many embeddings as chunks, it returns a graph, and surplus embeddings are ignored.
\<close>

theorem create_networkx_graph_lengths:
  "(2 \<le> length data \<and> length embeddings < length data \<longrightarrow>
      create_networkx_graph nlp cos_sim data embeddings = Inl IndexError)
   \<and> (length data \<le> 1 \<or> length data \<le> length embeddings \<longrightarrow>
      (\<exists>G. create_networkx_graph nlp cos_sim data embeddings = Inr G))"
  using create_networkx_graph_error [of data embeddings nlp cos_sim]
    create_networkx_graph_result [of data embeddings nlp cos_sim]
  by blast

theorem create_networkx_graph_lengths_witness:
  "2 \<le> length family_data \<and> length [0 :: nat] < length family_data
   \<and> create_networkx_graph family_nlp family_cos family_data [0 :: nat] = Inl IndexError
   \<and> length family_data \<le> length [0, 1, 2 :: nat]
   \<and> (\<exists>G. create_networkx_graph family_nlp family_cos family_data [0, 1, 2 :: nat] = Inr G)"
proof -
  have a: "2 \<le> length family_data \<and> length [0 :: nat] < length family_data"
    by (simp add: family_data_def)
  have b: "length family_data \<le> 1 \<or> length family_data \<le> length [0, 1, 2 :: nat]"
    by (simp add: family_data_def)
  from create_networkx_graph_lengths [of family_data "[0 :: nat]" family_nlp family_cos,
      THEN conjunct1, rule_format, OF a]
    create_networkx_graph_lengths [of family_data "[0, 1, 2 :: nat]" family_nlp family_cos,
      THEN conjunct2, rule_format, OF b] a
  show ?thesis by (simp add: family_data_def)
qed

text \<open>
  The claim as stated fails: two chunks with three embeddings are accepted, and the graph
  is built from the first two embeddings.
\<close>

theorem create_networkx_graph_lengths_counterexample:
  "length family_data \<noteq> length [0, 1, 2 :: nat]
   \<and> create_networkx_graph family_nlp family_cos family_data [0, 1, 2 :: nat] = Inr family_graph"
proof
  show "length family_data \<noteq> length [0, 1, 2 :: nat]"
    by (simp add: family_data_def)
  show "create_networkx_graph family_nlp family_cos family_data [0, 1, 2 :: nat] = Inr family_graph"
    by code_simp
qed

subsection \<open>The built graph\<close>

lemma create_networkx_graph_Inr:
  assumes "create_networkx_graph nlp cos_sim data embeddings = Inr G"
  shows "G = \<lparr>g_nodes = g_nodes (chunk_loop nlp data),
              g_edges = fold apply_op
                (similar_edges cos_sim embeddings (docs_of (g_nodes (chunk_loop nlp data))))
                (g_edges (chunk_loop nlp data))\<rparr>"
proof (cases "length data \<le> 1 \<or> length data \<le> length embeddings")
  case True
  from create_networkx_graph_result [OF True, of nlp cos_sim] assms show ?thesis by simp
next
  case False
  then have "2 \<le> length data" "length embeddings < length data" by auto
  from create_networkx_graph_error [OF this, of nlp cos_sim] assms show ?thesis by simp
qed

lemma similar_edges_op:
  assumes "op \<in> set (similar_edges cos_sim embeddings dn)"
  shows "\<exists>i j. i < j \<and> j < length dn \<and> cos_sim (embeddings ! i) (embeddings ! j) > 7 / 10
           \<and> op = (dn ! i, dn ! j, ''similar'', Some (Num (cos_sim (embeddings ! i) (embeddings ! j))))"
proof -
  from assms obtain i n1 j n2 where m: "((i, n1), (j, n2)) \<in> set (pairs (enumerate 0 dn))"
    and c: "cos_sim (embeddings ! i) (embeddings ! j) > 7 / 10"
    and op: "op = (n1, n2, ''similar'', Some (Num (cos_sim (embeddings ! i) (embeddings ! j))))"
    unfolding similar_edges_def by auto
  from m have "i < j" "j < length dn" "n1 = dn ! i" "n2 = dn ! j"
    by (simp_all add: pairs_enumerate_iff)
  with c op show ?thesis by blast
qed

lemma similar_edges_member:
  assumes "i < j" and "j < length dn" and "cos_sim (embeddings ! i) (embeddings ! j) > 7 / 10"
  shows "(dn ! i, dn ! j, ''similar'', Some (Num (cos_sim (embeddings ! i) (embeddings ! j))))
         \<in> set (similar_edges cos_sim embeddings dn)"
proof -
  from assms(1,2) have "((i, dn ! i), (j, dn ! j)) \<in> set (pairs (enumerate 0 dn))"
    by (simp add: pairs_enumerate_iff)
  with assms(3) show ?thesis
    unfolding similar_edges_def by force
qed

lemma names_chunk_loop:
  "fst ` set (g_nodes (chunk_loop nlp data)) =
   (\<Union>i < length data. insert (doc_node i) (set (chunk_entities nlp (data ! i))))"
proof -
  have "(\<Union>ic \<in> set (enumerate 0 data). insert (doc_node (fst ic)) (set (chunk_entities nlp (snd ic))))
        = (\<Union>i < length data. insert (doc_node i) (set (chunk_entities nlp (data ! i))))"
    (is "?L = ?R")
  proof (intro set_eqI iffI)
    fix x assume "x \<in> ?L"
    then obtain ic where ic: "ic \<in> set (enumerate 0 data)"
      and x: "x \<in> insert (doc_node (fst ic)) (set (chunk_entities nlp (snd ic)))" by blast
    from ic have "fst ic < length data" "snd ic = data ! fst ic"
      by (simp_all add: in_set_enumerate_eq)
    with x show "x \<in> ?R" by auto
  next
    fix x assume "x \<in> ?R"
    then obtain i where i: "i < length data"
      and x: "x \<in> insert (doc_node i) (set (chunk_entities nlp (data ! i)))" by blast
    from i have "(i, data ! i) \<in> set (enumerate 0 data)"
      by (simp add: in_set_enumerate_eq)
    with x show "x \<in> ?L" by force
  qed
  then show ?thesis
    by (simp add: g_nodes_chunk_loop fst_set_fold_chunk_nodes)
qed

lemma built_graph_endpoints:
  assumes "create_networkx_graph nlp cos_sim data embeddings = Inr G"
    and "(p, a) \<in> set (g_edges G)"
  shows "fst p \<in> fst ` set (g_nodes G) \<and> snd p \<in> fst ` set (g_nodes G)"
proof -
  define G0 where "G0 = chunk_loop nlp data"
  define dn where "dn = docs_of (g_nodes G0)"
  note G = create_networkx_graph_Inr [OF assms(1), folded G0_def dn_def]
  have nodes: "g_nodes G = g_nodes G0" by (simp add: G)
  from assms(2) have "p \<in> fst ` set (fold apply_op (similar_edges cos_sim embeddings dn) (g_edges G0))"
    by (simp add: G fst_imageI)
  with fst_set_fold_apply_op have "p \<in> fst ` set (g_edges G0) \<or> p \<in> op_key ` set (similar_edges cos_sim embeddings dn)"
    by blast
  then show ?thesis
  proof
    assume "p \<in> fst ` set (g_edges G0)"
    with fst_set_fold_apply_op [of "relation_edges nlp data" "[]"]
    have "p \<in> op_key ` set (relation_edges nlp data)"
      unfolding G0_def g_edges_chunk_loop by auto
    then obtain op where op: "op \<in> set (relation_edges nlp data)" and p: "p = op_key op" by blast
    from relation_edges_op [OF op] obtain i where "i < length data"
      and "fst (op_key op) \<in> insert (doc_node i) (set (chunk_entities nlp (data ! i)))"
      and "snd (op_key op) \<in> set (chunk_entities nlp (data ! i))" by blast
    then show ?thesis
      unfolding nodes G0_def names_chunk_loop p by blast
  next
    assume "p \<in> op_key ` set (similar_edges cos_sim embeddings dn)"
    then obtain op where op: "op \<in> set (similar_edges cos_sim embeddings dn)" and p: "p = op_key op"
      by blast
    from similar_edges_op [OF op] obtain i j where "i < j" "j < length dn"
      and "op = (dn ! i, dn ! j, ''similar'', Some (Num (cos_sim (embeddings ! i) (embeddings ! j))))"
      by blast
    then have "fst p \<in> set dn" "snd p \<in> set dn"
      by (simp_all add: p op_key_def)
    with docs_are_nodes [of "g_nodes G0"] show ?thesis
      unfolding nodes dn_def by blast
  qed
qed

lemma neighbors_endpoints:
  "m \<in> set (neighbors G n) \<Longrightarrow> \<exists>p a. (p, a) \<in> set (g_edges G) \<and> (m = fst p \<or> m = snd p)"
  unfolding neighbors_def by (auto split: if_splits)

lemma nodes_ok_entry:
  assumes "nodes_ok k ns" and "(n, a) \<in> set ns"
  shows "n_confidence a = None \<and> (n_type a = Some ''document'' \<or> n_type a = Some ''entity'')"
proof -
  from assms have "entry_ok k (n, a)" by (auto simp: nodes_ok_def)
  then show ?thesis
    by (cases "n \<in> doc_node ` {..<k}") (simp_all add: entry_ok_def)
qed

lemma node_type_nodes_ok:
  assumes "nodes_ok k (g_nodes G)" and "m \<in> fst ` set (g_nodes G)"
  shows "node_type G m = Inr ''document'' \<or> node_type G m = Inr ''entity''"
proof -
  from assms(2) obtain a where a: "(m, a) \<in> set (g_nodes G)" by auto
  from assms(1) have "distinct (map fst (g_nodes G))" by (simp add: nodes_ok_def)
  with a have "map_of (g_nodes G) m = Some a" by simp
  moreover from nodes_ok_entry [OF assms(1) a]
  have "n_type a = Some ''document'' \<or> n_type a = Some ''entity''" by simp
  ultimately show ?thesis by (auto simp: node_type_def)
qed

lemma of_type_chunk_empty:
  "\<forall>m \<in> set ms. node_type G m = Inr ''document'' \<or> node_type G m = Inr ''entity'' \<Longrightarrow>
   of_type G ''chunk'' ms = Inr []"
  by (induction ms) auto

lemma relevance_score_isolated:
  "n_confidence a = None \<Longrightarrow>
   relevance_score query n a [] [] = (if str_in (lower n) (lower query) then 5 / 10 else 0)"
  by (simp add: relevance_score_def)

lemma node_scores_isolated:
  assumes "\<forall>(n, a) \<in> set ns. n_type a = Some ''entity'' \<longrightarrow>
             of_type G ''chunk'' (neighbors G n) = Inr [] \<and> n_confidence a = None"
  shows "node_scores st G query ns =
         Inr (map (\<lambda>(n, a). (n, (case n_entity_type a of Some t \<Rightarrow> t | None \<Rightarrow> ''Unknown''), [],
                              (if str_in (lower n) (lower query) then 5 / 10 else 0)))
               (filter (\<lambda>(n, a). n_type a = Some ''entity''
                          \<and> entity_relevance_threshold st
                              \<le> (if str_in (lower n) (lower query) then 5 / 10 else 0)) ns))"
  using assms
proof (induction ns)
  case Nil
  then show ?case by simp
next
  case (Cons x ns)
  obtain n a where x: "x = (n, a)" by (cases x)
  from Cons have IH: "node_scores st G query ns =
         Inr (map (\<lambda>(n, a). (n, (case n_entity_type a of Some t \<Rightarrow> t | None \<Rightarrow> ''Unknown''), [],
                              (if str_in (lower n) (lower query) then 5 / 10 else 0)))
               (filter (\<lambda>(n, a). n_type a = Some ''entity''
                          \<and> entity_relevance_threshold st
                              \<le> (if str_in (lower n) (lower query) then 5 / 10 else 0)) ns))"
    by simp
  show ?case
  proof (cases "n_type a = Some ''entity''")
    case True
    with Cons.prems x have c: "of_type G ''chunk'' (neighbors G n) = Inr []"
      and conf: "n_confidence a = None" by auto
    show ?thesis
      unfolding x using True c
      by (simp add: IH relevance_score_isolated [OF conf] Let_def)
  next
    case False
    then show ?thesis unfolding x by (simp add: IH)
  qed
qed

text \<open>
  C10. In every graph that \<^verbatim>\<open>create_networkx_graph\<close> returns, every node is typed
  \<open>document\<close> or \<open>entity\<close> and none has a confidence. Hence in \<^verbatim>\<open>get_graph_context\<close>
  over such a graph every entity has no chunk-typed neighbour and no parent document, and
  its relevance is 0.5 when its lower-cased name occurs in the lower-cased query and 0
  otherwise; the node loop yields exactly the entities whose such score reaches the
  threshold.
\<close>

theorem built_graph_has_no_chunk_nodes:
  assumes "create_networkx_graph nlp cos_sim data embeddings = Inr G"
  shows "(\<forall>(n, a) \<in> set (g_nodes G).
            (n_type a = Some ''document'' \<or> n_type a = Some ''entity'') \<and> n_confidence a = None)
       \<and> (\<forall>(n, a) \<in> set (g_nodes G). n_type a = Some ''entity'' \<longrightarrow>
            of_type G ''chunk'' (neighbors G n) = Inr [] \<and> parent_documents G [] = Inr []
            \<and> relevance_score query n a [] [] = (if str_in (lower n) (lower query) then 5 / 10 else 0))
       \<and> node_scores st G query (g_nodes G) =
           Inr (map (\<lambda>(n, a). (n, (case n_entity_type a of Some t \<Rightarrow> t | None \<Rightarrow> ''Unknown''), [],
                                (if str_in (lower n) (lower query) then 5 / 10 else 0)))
                 (filter (\<lambda>(n, a). n_type a = Some ''entity''
                            \<and> entity_relevance_threshold st
                                \<le> (if str_in (lower n) (lower query) then 5 / 10 else 0))
                    (g_nodes G)))"
proof -
  have nodes: "g_nodes G = g_nodes (chunk_loop nlp data)"
    using create_networkx_graph_Inr [OF assms] by simp
  have ok: "nodes_ok (length data) (g_nodes G)"
    unfolding nodes by (rule nodes_ok_chunk_loop)
  have types: "(n_type a = Some ''document'' \<or> n_type a = Some ''entity'') \<and> n_confidence a = None"
    if "(n, a) \<in> set (g_nodes G)" for n a
    using nodes_ok_entry [OF ok that] by simp
  have nb: "of_type G ''chunk'' (neighbors G n) = Inr []" for n
  proof (rule of_type_chunk_empty, rule ballI)
    fix m assume "m \<in> set (neighbors G n)"
    from neighbors_endpoints [OF this] built_graph_endpoints [OF assms]
    have "m \<in> fst ` set (g_nodes G)" by blast
    with ok show "node_type G m = Inr ''document'' \<or> node_type G m = Inr ''entity''"
      by (rule node_type_nodes_ok)
  qed
  have iso: "\<forall>(n, a) \<in> set (g_nodes G). n_type a = Some ''entity'' \<longrightarrow>
             of_type G ''chunk'' (neighbors G n) = Inr [] \<and> n_confidence a = None"
    using types nb by blast
  show ?thesis
  proof (intro conjI)
    show "\<forall>(n, a) \<in> set (g_nodes G).
            (n_type a = Some ''document'' \<or> n_type a = Some ''entity'') \<and> n_confidence a = None"
      using types by blast
    show "\<forall>(n, a) \<in> set (g_nodes G). n_type a = Some ''entity'' \<longrightarrow>
            of_type G ''chunk'' (neighbors G n) = Inr [] \<and> parent_documents G [] = Inr []
            \<and> relevance_score query n a [] [] = (if str_in (lower n) (lower query) then 5 / 10 else 0)"
      using types nb by (auto simp: relevance_score_isolated)
    show "node_scores st G query (g_nodes G) =
           Inr (map (\<lambda>(n, a). (n, (case n_entity_type a of Some t \<Rightarrow> t | None \<Rightarrow> ''Unknown''), [],
                                (if str_in (lower n) (lower query) then 5 / 10 else 0)))
                 (filter (\<lambda>(n, a). n_type a = Some ''entity''
                            \<and> entity_relevance_threshold st
                                \<le> (if str_in (lower n) (lower query) then 5 / 10 else 0))
                    (g_nodes G)))"
      by (rule node_scores_isolated [OF iso])
  qed
qed

lemma family_graph_built:
  "create_networkx_graph family_nlp family_cos family_data [0, 1 :: nat] = Inr family_graph"
  by code_simp

theorem built_graph_has_no_chunk_nodes_witness:
  "create_networkx_graph family_nlp family_cos family_data [0, 1 :: nat] = Inr family_graph
   \<and> node_scores half_threshold_settings family_graph ''Who is Mary?'' (g_nodes family_graph)
       = Inr [(''Mary'', ''PERSON'', [], 5 / 10)]
   \<and> of_type family_graph ''chunk'' (neighbors family_graph ''Mary'') = Inr []"
proof -
  note b = family_graph_built
  note t = built_graph_has_no_chunk_nodes [OF b, of "''Who is Mary?''" half_threshold_settings]
  have "map (\<lambda>(n, a). (n, (case n_entity_type a of Some t \<Rightarrow> t | None \<Rightarrow> ''Unknown''), [] :: node list,
                          (if str_in (lower n) (lower ''Who is Mary?'') then 5 / 10 else 0 :: real)))
          (filter (\<lambda>(n, a). n_type a = Some ''entity''
                     \<and> entity_relevance_threshold half_threshold_settings
                         \<le> (if str_in (lower n) (lower ''Who is Mary?'') then 5 / 10 else 0))
             (g_nodes family_graph))
        = [(''Mary'', ''PERSON'', [], 5 / 10)]"
    by code_simp
  with t have s: "node_scores half_threshold_settings family_graph ''Who is Mary?'' (g_nodes family_graph)
       = Inr [(''Mary'', ''PERSON'', [], 5 / 10)]"
    by simp
  have "(''Mary'', snd (g_nodes family_graph ! 1)) \<in> set (g_nodes family_graph)"
    and "n_type (snd (g_nodes family_graph ! 1)) = Some ''entity''"
    by (simp_all add: family_graph_def)
  with t have "of_type family_graph ''chunk'' (neighbors family_graph ''Mary'') = Inr []"
    by blast
  with b s show ?thesis by simp
qed

subsection \<open>The last relation wins\<close>

lemma last_label_Some:
  "last_label ops q = Some r \<Longrightarrow> \<exists>op \<in> set ops. same_pair q (op_key op) \<and> fst (snd (snd op)) = r"
  by (induction ops) (auto split: option.splits if_splits)

lemma last_label_hit:
  "op \<in> set ops \<Longrightarrow> same_pair q (op_key op) \<Longrightarrow> last_label ops q \<noteq> None"
  by (induction ops) (auto split: option.splits)

lemma relation_from_empty:
  "map_option e_relation (edge_data (fold apply_op ops []) q) = map_option Some (last_label ops q)"
  by (simp add: relation_fold_apply_op split: option.splits)

lemma built_graph_edges:
  assumes "create_networkx_graph nlp cos_sim data embeddings = Inr G"
  shows "g_edges G = fold apply_op
           (relation_edges nlp data
            @ similar_edges cos_sim embeddings (docs_of (g_nodes (chunk_loop nlp data)))) []"
  using create_networkx_graph_Inr [OF assms] by (simp add: g_edges_chunk_loop)

text \<open>
  C6. The graph keeps one edge per pair of endpoints, and \<^verbatim>\<open>add_edge\<close> preserves this;
  adding a relation edge between \<open>u\<close> and \<open>v\<close> leaves the new label on that pair, in
  either direction, whatever was there before. In every graph that
  \<^verbatim>\<open>create_networkx_graph\<close> returns, the relation label between any two nodes is the
  label of the last edge insertion between them, in the order in which the source
  processes the chunks and then the similarity pairs; no insertion means no edge. Within
  a chunk the family-pass triples are applied after the syntactic ones, so the label left
  on the pair of a family-pass triple is that of a family-pass triple.
\<close>

theorem last_relation_wins:
  "(one_edge_per_pair (g_edges G) \<longrightarrow> one_edge_per_pair (g_edges (add_edge G u v f)))
   \<and> map_option e_relation (get_edge_data (add_edge G u v (\<lambda>a. a\<lparr>e_relation := Some r\<rparr>)) u v)
       = Some (Some r)
   \<and> map_option e_relation (get_edge_data (add_edge G u v (\<lambda>a. a\<lparr>e_relation := Some r\<rparr>)) v u)
       = Some (Some r)
   \<and> (create_networkx_graph nlp cos_sim data embeddings = Inr B \<longrightarrow>
        one_edge_per_pair (g_edges B)
        \<and> (\<exists>dn. doc_nodes (g_nodes (chunk_loop nlp data)) = Inr dn
             \<and> (\<forall>x y. map_option e_relation (get_edge_data B x y)
                        = map_option Some
                            (last_label (relation_edges nlp data @ similar_edges cos_sim embeddings dn)
                               (x, y)))))
   \<and> (\<forall>(s, k, obj) \<in> set family_triples.
        \<exists>(s', k', obj') \<in> set family_triples.
          same_pair (s, obj) (s', obj')
          \<and> map_option e_relation (get_edge_data (add_triples (triples @ family_triples) G) s obj)
              = Some (Some k'))"
proof (intro conjI impI)
  assume "one_edge_per_pair (g_edges G)"
  then show "one_edge_per_pair (g_edges (add_edge G u v f))"
    by (simp add: one_edge_per_pair_upsert_edge)
next
  show "map_option e_relation (get_edge_data (add_edge G u v (\<lambda>a. a\<lparr>e_relation := Some r\<rparr>)) u v)
       = Some (Some r)"
    by (simp add: get_edge_data_def edge_data_upsert_edge)
next
  have "same_pair (v, u) (u, v)" by (simp add: same_pair_def)
  then show "map_option e_relation (get_edge_data (add_edge G u v (\<lambda>a. a\<lparr>e_relation := Some r\<rparr>)) v u)
       = Some (Some r)"
    by (simp add: get_edge_data_def edge_data_upsert_edge)
next
  assume b: "create_networkx_graph nlp cos_sim data embeddings = Inr B"
  note e = built_graph_edges [OF b]
  show "one_edge_per_pair (g_edges B)"
    unfolding e by (rule one_edge_per_pair_fold_apply_op) simp
  have "\<forall>x y. map_option e_relation (get_edge_data B x y)
                = map_option Some
                    (last_label (relation_edges nlp data
                       @ similar_edges cos_sim embeddings (docs_of (g_nodes (chunk_loop nlp data))))
                       (x, y))"
    unfolding get_edge_data_def e by (simp only: relation_from_empty) simp
  with doc_nodes_chunk_loop [of nlp data]
  show "\<exists>dn. doc_nodes (g_nodes (chunk_loop nlp data)) = Inr dn
             \<and> (\<forall>x y. map_option e_relation (get_edge_data B x y)
                        = map_option Some
                            (last_label (relation_edges nlp data @ similar_edges cos_sim embeddings dn)
                               (x, y)))"
    by blast
next
  show "\<forall>(s, k, obj) \<in> set family_triples.
        \<exists>(s', k', obj') \<in> set family_triples.
          same_pair (s, obj) (s', obj')
          \<and> map_option e_relation (get_edge_data (add_triples (triples @ family_triples) G) s obj)
              = Some (Some k')"
  proof (clarify)
    fix s k obj assume t: "(s, k, obj) \<in> set family_triples"
    define T :: "string \<times> string \<times> string \<Rightarrow> edge_op"
      where "T = (\<lambda>(subj, rel, obj). (subj, obj, rel, None))"
    from t have "T (s, k, obj) \<in> set (map T family_triples)" by simp
    moreover have "same_pair (s, obj) (op_key (T (s, k, obj)))"
      by (simp add: T_def op_key_def)
    ultimately have "last_label (map T family_triples) (s, obj) \<noteq> None"
      by (rule last_label_hit)
    then obtain k' where k': "last_label (map T family_triples) (s, obj) = Some k'" by auto
    from last_label_Some [OF k'] obtain t' where t': "t' \<in> set family_triples"
      and sp: "same_pair (s, obj) (op_key (T t'))" and lab: "fst (snd (snd (T t'))) = k'"
      by auto
    obtain s' r' obj' where t'_eq: "t' = (s', r', obj')" by (cases t')
    from sp lab have sp': "same_pair (s, obj) (s', obj')" and "r' = k'"
      by (simp_all add: t'_eq T_def op_key_def)
    with t' t'_eq have mem: "(s', k', obj') \<in> set family_triples" by simp
    have "map_option e_relation (get_edge_data (add_triples (triples @ family_triples) G) s obj)
          = Some (Some k')"
      unfolding get_edge_data_def g_edges_add_triples T_def [symmetric] map_append
      by (simp add: relation_fold_apply_op last_label_append k')
    with sp' mem
    show "\<exists>(s', k', obj') \<in> set family_triples.
          same_pair (s, obj) (s', obj')
          \<and> map_option e_relation (get_edge_data (add_triples (triples @ family_triples) G) s obj)
              = Some (Some k')"
      by blast
  qed
qed

theorem last_relation_wins_witness:
  "one_edge_per_pair (g_edges family_graph)
   \<and> one_edge_per_pair (g_edges (add_edge family_graph ''John'' ''Mary'' id))
   \<and> create_networkx_graph family_nlp family_cos family_data [0, 1 :: nat] = Inr family_graph
   \<and> map_option e_relation (get_edge_data family_graph ''John'' ''Mary'') = Some (Some ''aunt'')
   \<and> (''Mary'', ''aunt'', ''John'') \<in> set [(''Mary'', ''aunt'', ''John'')]
   \<and> map_option e_relation
        (get_edge_data
           (add_triples ([(''Mary'', ''sister'', ''John'')] @ [(''Mary'', ''aunt'', ''John'')]) family_graph)
           ''Mary'' ''John'')
       = Some (Some ''aunt'')"
proof -
  note t = last_relation_wins [where G = family_graph and u = "''John''" and v = "''Mary''"
      and f = id and nlp = family_nlp and cos_sim = family_cos and data = family_data
      and embeddings = "[0, 1 :: nat]" and B = family_graph
      and family_triples = "[(''Mary'', ''aunt'', ''John'')]"
      and triples = "[(''Mary'', ''sister'', ''John'')]"]
  have h: "one_edge_per_pair (g_edges family_graph)"
    by (simp add: family_graph_def same_pair_def)
  have b: "create_networkx_graph family_nlp family_cos family_data [0, 1 :: nat] = Inr family_graph"
    by (rule family_graph_built)
  note a = t [THEN conjunct1, rule_format, OF h]
  note c = t [THEN conjunct2, THEN conjunct2, THEN conjunct2, THEN conjunct1, rule_format, OF b]
  note d = t [THEN conjunct2, THEN conjunct2, THEN conjunct2, THEN conjunct2]
  from c obtain dn where dn: "doc_nodes (g_nodes (chunk_loop family_nlp family_data)) = Inr dn"
    and eq: "\<forall>x y. map_option e_relation (get_edge_data family_graph x y)
                = map_option Some
                    (last_label (relation_edges family_nlp family_data
                                 @ similar_edges family_cos [0, 1 :: nat] dn) (x, y))"
    by blast
  have "doc_nodes (g_nodes (chunk_loop family_nlp family_data)) = Inr [''doc_0'', ''doc_1'']"
    by code_simp
  with dn have dn': "dn = [''doc_0'', ''doc_1'']" by simp
  have "last_label (relation_edges family_nlp family_data
                    @ similar_edges family_cos [0, 1 :: nat] [''doc_0'', ''doc_1''])
          (''John'', ''Mary'') = Some ''aunt''"
    by code_simp
  with eq dn' have r: "map_option e_relation (get_edge_data family_graph ''John'' ''Mary'')
                        = Some (Some ''aunt'')"
    by simp
  have m: "(''Mary'', ''aunt'', ''John'') \<in> set [(''Mary'', ''aunt'', ''John'')]" by simp
  from d have "map_option e_relation
        (get_edge_data
           (add_triples ([(''Mary'', ''sister'', ''John'')] @ [(''Mary'', ''aunt'', ''John'')]) family_graph)
           ''Mary'' ''John'')
       = Some (Some ''aunt'')"
    by simp
  with h a b r m show ?thesis by (intro conjI)
qed

subsection \<open>Similarity edges\<close>

lemma docs_of_append: "docs_of (ns @ ms) = docs_of ns @ docs_of ms"
  by (simp add: docs_of_def)

lemma docs_of_add_entity_node: "docs_of (add_entity_node et ns) = docs_of ns"
  by (simp add: add_entity_node_def docs_of_def no_node_attrs_def)

lemma docs_of_fold_add_entity_node: "docs_of (fold add_entity_node ke ns) = docs_of ns"
  by (induction ke arbitrary: ns) (simp_all add: docs_of_add_entity_node)

lemma docs_of_chunk_nodes:
  assumes "doc_node k \<notin> fst ` set ns"
  shows "docs_of (chunk_nodes nlp (k, c) ns) = docs_of ns @ [doc_node k]"
  using assms
  by (simp add: chunk_nodes_def docs_of_fold_add_entity_node upsert_node_absent docs_of_append)
    (simp add: docs_of_def)

lemma docs_of_fold_chunk_nodes:
  assumes "docs_of ns = map doc_node [0..<k]"
    and "fst ` set ns \<subseteq> doc_node ` {..<k} \<union> E"
    and "E \<inter> doc_node ` {..<N} = {}"
    and "k + length xs \<le> N"
    and "\<forall>c \<in> set xs. set (chunk_entities nlp c) \<subseteq> E"
  shows "docs_of (fold (chunk_nodes nlp) (enumerate k xs) ns) = map doc_node [0..<k + length xs]"
  using assms
proof (induction xs arbitrary: k ns)
  case Nil
  then show ?case by simp
next
  case (Cons x xs)
  define ns1 where "ns1 = chunk_nodes nlp (k, x) ns"
  from Cons.prems(4) have kN: "k < N" by simp
  have absent: "doc_node k \<notin> fst ` set ns"
  proof
    assume "doc_node k \<in> fst ` set ns"
    with Cons.prems(2) have "doc_node k \<in> doc_node ` {..<k} \<or> doc_node k \<in> E" by blast
    then show False
    proof
      assume "doc_node k \<in> doc_node ` {..<k}"
      then obtain i where "i < k" "doc_node k = doc_node i" by auto
      with doc_node_inj [of k i] show False by simp
    next
      assume "doc_node k \<in> E"
      moreover from kN have "doc_node k \<in> doc_node ` {..<N}" by simp
      ultimately show False using Cons.prems(3) by blast
    qed
  qed
  have d1: "docs_of ns1 = map doc_node [0..<Suc k]"
    unfolding ns1_def by (simp add: docs_of_chunk_nodes [OF absent] Cons.prems(1))
  have n1: "fst ` set ns1 \<subseteq> doc_node ` {..<Suc k} \<union> E"
    unfolding ns1_def fst_set_chunk_nodes using Cons.prems(2,5)
    by (auto simp: lessThan_Suc)
  from Cons.prems(4) have l1: "Suc k + length xs \<le> N" by simp
  from Cons.prems(5) have e1: "\<forall>c \<in> set xs. set (chunk_entities nlp c) \<subseteq> E" by simp
  from Cons.IH [OF d1 n1 Cons.prems(3) l1 e1]
  show ?case by (simp add: ns1_def)
qed

lemma no_collision_entities:
  assumes "no_collision nlp data"
  shows "(\<Union>c \<in> set data. set (chunk_entities nlp c)) \<inter> doc_node ` {..<length data} = {}"
  using assms unfolding no_collision_def by blast

lemma docs_of_chunk_loop:
  assumes "no_collision nlp data"
  shows "docs_of (g_nodes (chunk_loop nlp data)) = map doc_node [0..<length data]"
proof -
  define E where "E = (\<Union>c \<in> set data. set (chunk_entities nlp c))"
  have "docs_of (fold (chunk_nodes nlp) (enumerate 0 data) []) = map doc_node [0..<0 + length data]"
  proof (rule docs_of_fold_chunk_nodes [where E = E and N = "length data"])
    show "docs_of [] = map doc_node [0..<0]" by (simp add: docs_of_def)
    show "fst ` set [] \<subseteq> doc_node ` {..<0} \<union> E" by simp
    show "E \<inter> doc_node ` {..<length data} = {}"
      unfolding E_def by (rule no_collision_entities [OF assms])
    show "0 + length data \<le> length data" by simp
    show "\<forall>c \<in> set data. set (chunk_entities nlp c) \<subseteq> E"
      unfolding E_def by blast
  qed
  then show ?thesis by (simp add: g_nodes_chunk_loop)
qed

lemma no_chunk_chunk_edges:
  assumes "no_collision nlp data" and "i < length data" and "j < length data"
  shows "edge_data (g_edges (chunk_loop nlp data)) (doc_node i, doc_node j) = None"
proof -
  have "\<not> same_pair (doc_node i, doc_node j) (op_key op)" if op: "op \<in> set (relation_edges nlp data)" for op
  proof
    assume sp: "same_pair (doc_node i, doc_node j) (op_key op)"
    from relation_edges_op [OF op] obtain m where m: "m < length data"
      and e: "snd (op_key op) \<in> set (chunk_entities nlp (data ! m))" by blast
    from sp have "op_key op = (doc_node i, doc_node j) \<or> op_key op = (doc_node j, doc_node i)"
      by (cases "op_key op") (auto simp: same_pair_def)
    then have "snd (op_key op) = doc_node i \<or> snd (op_key op) = doc_node j"
      by auto
    with e assms m show False
      unfolding no_collision_def by (metis nth_mem)
  qed
  then show ?thesis
    unfolding g_edges_chunk_loop by (simp add: edge_data_fold_apply_op_other)
qed

lemma chunk_loop_weights:
  assumes "(p, a) \<in> set (g_edges (chunk_loop nlp data))"
  shows "e_weight a = None"
proof (cases "e_weight a")
  case None
  then show ?thesis .
next
  case (Some w)
  from weight_fold_apply_op [OF assms [unfolded g_edges_chunk_loop] Some]
  obtain op where "op \<in> set (relation_edges nlp data)" "snd (snd (snd op)) = Some w" by auto
  with relation_edges_op show ?thesis by fastforce
qed

lemma built_graph_weights:
  assumes "create_networkx_graph nlp cos_sim data embeddings = Inr G"
    and "(p, a) \<in> set (g_edges G)" and "e_weight a = Some w"
  shows "\<exists>i j. i < j \<and> j < length data \<and> w = Num (cos_sim (embeddings ! i) (embeddings ! j))
           \<and> 7 / 10 < cos_sim (embeddings ! i) (embeddings ! j)"
proof -
  define dn where "dn = docs_of (g_nodes (chunk_loop nlp data))"
  have len: "length dn = length data"
    unfolding dn_def by (rule length_docs_chunk_loop)
  from create_networkx_graph_Inr [OF assms(1)] assms(2)
  have "(p, a) \<in> set (fold apply_op (similar_edges cos_sim embeddings dn) (g_edges (chunk_loop nlp data)))"
    by (simp add: dn_def)
  from weight_fold_apply_op [OF this assms(3)]
  have "\<exists>op \<in> set (similar_edges cos_sim embeddings dn). snd (snd (snd op)) = Some w"
    using chunk_loop_weights [of _ _ nlp data] by fastforce
  then obtain op where op: "op \<in> set (similar_edges cos_sim embeddings dn)"
    and w: "snd (snd (snd op)) = Some w" by blast
  from similar_edges_op [OF op] obtain i j where ij: "i < j" "j < length dn"
    and c: "cos_sim (embeddings ! i) (embeddings ! j) > 7 / 10"
    and op_eq: "op = (dn ! i, dn ! j, ''similar'', Some (Num (cos_sim (embeddings ! i) (embeddings ! j))))"
    by blast
  from op_eq w have "w = Num (cos_sim (embeddings ! i) (embeddings ! j))" by simp
  with ij c len show ?thesis by auto
qed

lemma similar_edge_lookup:
  assumes "length embeddings = length data" and "no_collision nlp data"
    and "create_networkx_graph nlp cos_sim data embeddings = Inr G"
    and "i < j" and "j < length data"
  shows "edge_data (g_edges G) (doc_node i, doc_node j) =
           (if cos_sim (embeddings ! i) (embeddings ! j) > 7 / 10
            then Some \<lparr>e_relation = Some ''similar'',
                       e_weight = Some (Num (cos_sim (embeddings ! i) (embeddings ! j)))\<rparr>
            else None)"
proof -
  define dn where "dn = map doc_node [0..<length data]"
  define c where "c = cos_sim (embeddings ! i) (embeddings ! j)"
  define q where "q = (doc_node i, doc_node j)"
  have dn: "docs_of (g_nodes (chunk_loop nlp data)) = dn"
    unfolding dn_def by (rule docs_of_chunk_loop [OF assms(2)])
  have len: "length dn = length data" by (simp add: dn_def)
  have nth: "dn ! m = doc_node m" if "m < length data" for m
    using that by (simp add: dn_def)
  from assms(4,5) have i: "i < length data" by simp
  have edges: "g_edges G = fold apply_op (similar_edges cos_sim embeddings dn) (g_edges (chunk_loop nlp data))"
    using create_networkx_graph_Inr [OF assms(3)] by (simp add: dn)
  have before: "edge_data (g_edges (chunk_loop nlp data)) q = None"
    unfolding q_def by (rule no_chunk_chunk_edges [OF assms(2) i assms(5)])
  have same: "snd (snd op) = (''similar'', Some (Num c))"
    if op: "op \<in> set (similar_edges cos_sim embeddings dn)" and sp: "same_pair q (op_key op)" for op
  proof -
    from similar_edges_op [OF op] obtain i' j' where ij': "i' < j'" "j' < length dn"
      and op_eq: "op = (dn ! i', dn ! j', ''similar'', Some (Num (cos_sim (embeddings ! i') (embeddings ! j'))))"
      by blast
    from ij' len have "i' < length data" "j' < length data" by simp_all
    with op_eq nth have key: "op_key op = (doc_node i', doc_node j')"
      by (simp add: op_key_def)
    from sp key have "(doc_node i = doc_node i' \<and> doc_node j = doc_node j')
                    \<or> (doc_node i = doc_node j' \<and> doc_node j = doc_node i')"
      by (auto simp: q_def same_pair_def)
    with doc_node_inj have "(i = i' \<and> j = j') \<or> (i = j' \<and> j = i')" by blast
    with assms(4) ij'(1) have "i = i'" "j = j'" by auto
    with op_eq show ?thesis by (simp add: c_def)
  qed
  show ?thesis
  proof (cases "c > 7 / 10")
    case True
    from assms(5) len have jl: "j < length dn" by simp
    from True have ci: "cos_sim (embeddings ! i) (embeddings ! j) > 7 / 10" by (simp add: c_def)
    have "(dn ! i, dn ! j, ''similar'', Some (Num c)) \<in> set (similar_edges cos_sim embeddings dn)"
      unfolding c_def using assms(4) jl ci by (rule similar_edges_member)
    moreover have "same_pair q (op_key (dn ! i, dn ! j, ''similar'', Some (Num c)))"
      using nth [OF i] nth [OF assms(5)] by (simp add: op_key_def q_def)
    ultimately have ex: "\<exists>op \<in> set (similar_edges cos_sim embeddings dn). same_pair q (op_key op)"
      by blast
    have all: "\<forall>op \<in> set (similar_edges cos_sim embeddings dn).
                 same_pair q (op_key op) \<longrightarrow> snd (snd op) = (''similar'', Some (Num c))"
      using same by blast
    from edge_data_fold_apply_op_same [OF ex all, of "g_edges (chunk_loop nlp data)"] True
    show ?thesis
      unfolding edges q_def [symmetric] c_def [symmetric]
      by (simp add: before set_attrs_def no_edge_attrs_def)
  next
    case False
    have "\<not> same_pair q (op_key op)" if op: "op \<in> set (similar_edges cos_sim embeddings dn)" for op
    proof
      assume sp: "same_pair q (op_key op)"
      from similar_edges_op [OF op] obtain w where "7 / 10 < w" "snd (snd (snd op)) = Some (Num w)"
        by auto
      with same [OF op sp] False show False by simp
    qed
    then have "edge_data (g_edges G) q = edge_data (g_edges (chunk_loop nlp data)) q"
      unfolding edges by (simp add: edge_data_fold_apply_op_other)
    with before False show ?thesis
      by (simp add: q_def c_def)
  qed
qed

text \<open>
  Where no key entity of the corpus is spelled like a chunk node identifier \<open>doc_k\<close> with
  \<open>k < n\<close>, the similarity pass does what it sets out to do: for chunks and embeddings of
  equal length \<open>n\<close>, \<^verbatim>\<open>create_networkx_graph\<close> returns a graph in which, for all
  \<open>i < j < n\<close>, the edge between chunk nodes \<open>i\<close> and \<open>j\<close> is a similarity edge exactly
  when the cosine similarity of the two embeddings exceeds 0.7, its weight then being that
  similarity, and there is no edge between them otherwise. Every weight in the graph is a
  number above 0.7, and at most 1 when the similarity function is.
\<close>

lemma similarity_edges_without_collision:
  assumes "length embeddings = length data" and "no_collision nlp data"
  shows "\<exists>G. create_networkx_graph nlp cos_sim data embeddings = Inr G
       \<and> (\<forall>i j. i < j \<and> j < length data \<longrightarrow>
            get_edge_data G (doc_node i) (doc_node j) =
              (if cos_sim (embeddings ! i) (embeddings ! j) > 7 / 10
               then Some \<lparr>e_relation = Some ''similar'',
                          e_weight = Some (Num (cos_sim (embeddings ! i) (embeddings ! j)))\<rparr>
               else None)
            \<and> get_edge_data G (doc_node j) (doc_node i) = get_edge_data G (doc_node i) (doc_node j))
       \<and> (\<forall>(p, a) \<in> set (g_edges G). \<forall>w. e_weight a = Some w \<longrightarrow>
            (\<exists>x. w = Num x \<and> 7 / 10 < x \<and> ((\<forall>x y. cos_sim x y \<le> 1) \<longrightarrow> x \<le> 1)))"
proof -
  from assms(1) have "length data \<le> 1 \<or> length data \<le> length embeddings" by simp
  from create_networkx_graph_result [OF this, of nlp cos_sim]
  obtain G where G: "create_networkx_graph nlp cos_sim data embeddings = Inr G" by blast
  have lookup: "get_edge_data G (doc_node i) (doc_node j) =
              (if cos_sim (embeddings ! i) (embeddings ! j) > 7 / 10
               then Some \<lparr>e_relation = Some ''similar'',
                          e_weight = Some (Num (cos_sim (embeddings ! i) (embeddings ! j)))\<rparr>
               else None)" if "i < j" "j < length data" for i j
    unfolding get_edge_data_def by (rule similar_edge_lookup [OF assms G that])
  have sym: "get_edge_data G (doc_node j) (doc_node i) = get_edge_data G (doc_node i) (doc_node j)" for i j
    unfolding get_edge_data_def by (rule edge_data_cong) (simp add: same_pair_def)
  have weights: "\<exists>x. w = Num x \<and> 7 / 10 < x \<and> ((\<forall>x y. cos_sim x y \<le> 1) \<longrightarrow> x \<le> 1)"
    if "(p, a) \<in> set (g_edges G)" "e_weight a = Some w" for p a w
    using built_graph_weights [OF G that] by auto
  from G lookup sym weights show ?thesis by blast
qed

text \<open>
  C3. A similarity edge between chunk nodes \<open>i\<close> and \<open>j\<close> exactly when the cosine
  similarity of embeddings \<open>i\<close> and \<open>j\<close> exceeds 0.7 is what the similarity pass sets out
  to store, and it misses when a key entity is called \<open>doc_2\<close>: the pass pairs the position
  of a chunk node in the graph with the embedding index, the node \<open>doc_2\<close> was created
  before \<open>doc_1\<close>, and so for three chunks of which only embeddings 0 and 1 are similar
  there is no edge between chunks 0 and 1, and a similarity edge of weight 0.9 between
  chunks 0 and 2.
\<close>

theorem similarity_edges_collision:
  "length [0, 1, 2 :: nat] = length collision_data
   \<and> create_networkx_graph collision_nlp collision_cos collision_data [0, 1, 2 :: nat]
       = Inr collision_graph
   \<and> collision_cos ([0, 1, 2] ! 0) ([0, 1, 2] ! 1) > 7 / 10
   \<and> get_edge_data collision_graph (doc_node 0) (doc_node 1) = None
   \<and> \<not> collision_cos ([0, 1, 2] ! 0) ([0, 1, 2] ! 2) > 7 / 10
   \<and> get_edge_data collision_graph (doc_node 0) (doc_node 2)
       = Some \<lparr>e_relation = Some ''similar'', e_weight = Some (Num (9 / 10))\<rparr>"
proof (intro conjI)
  show "length [0, 1, 2 :: nat] = length collision_data"
    by (simp add: collision_data_def)
  show "create_networkx_graph collision_nlp collision_cos collision_data [0, 1, 2 :: nat]
       = Inr collision_graph"
    by code_simp
  show "collision_cos ([0, 1, 2] ! 0) ([0, 1, 2] ! 1) > 7 / 10"
    by (simp add: collision_cos_def)
  show "get_edge_data collision_graph (doc_node 0) (doc_node 1) = None"
    by code_simp
  show "\<not> collision_cos ([0, 1, 2] ! 0) ([0, 1, 2] ! 2) > 7 / 10"
    by (simp add: collision_cos_def)
  show "get_edge_data collision_graph (doc_node 0) (doc_node 2)
       = Some \<lparr>e_relation = Some ''similar'', e_weight = Some (Num (9 / 10))\<rparr>"
    by code_simp
qed

lemma family_no_collision: "no_collision family_nlp family_data"
proof -
  have e0: "chunk_entities family_nlp (family_data ! 0) = [''Mary'', ''John'']"
    and e1: "chunk_entities family_nlp (family_data ! 1) = []"
    by code_simp+
  have d0: "doc_node 0 = ''doc_0''" and d1: "doc_node 1 = ''doc_1''"
    by code_simp+
  have len: "length family_data = 2" by (simp add: family_data_def)
  have "entity \<noteq> doc_node k"
    if "chunk \<in> set family_data" "entity \<in> set (chunk_entities family_nlp chunk)" "k < 2"
    for chunk entity k
  proof -
    from that(1) have "chunk = family_data ! 0 \<or> chunk = family_data ! 1"
      by (auto simp: family_data_def)
    with that(2) e0 e1 have "entity = ''Mary'' \<or> entity = ''John''" by auto
    moreover from that(3) have "k = 0 \<or> k = 1" by auto
    ultimately show ?thesis using d0 d1 by auto
  qed
  then show ?thesis
    unfolding no_collision_def len by blast
qed

lemma similarity_edges_family_corpus:
  "length [0, 1 :: nat] = length family_data \<and> no_collision family_nlp family_data
   \<and> create_networkx_graph family_nlp family_cos family_data [0, 1 :: nat] = Inr family_graph
   \<and> get_edge_data family_graph (doc_node 0) (doc_node 1)
       = Some \<lparr>e_relation = Some ''similar'', e_weight = Some (Num (82 / 100))\<rparr>
   \<and> ((''doc_0'', ''doc_1''), \<lparr>e_relation = Some ''similar'', e_weight = Some (Num (82 / 100))\<rparr>)
       \<in> set (g_edges family_graph)
   \<and> (7 / 10 :: real) < 82 / 100 \<and> (82 / 100 :: real) \<le> 1"
proof -
  have l: "length [0, 1 :: nat] = length family_data"
    by (simp add: family_data_def)
  note nc = family_no_collision
  from similarity_edges_without_collision [OF l nc, of family_cos]
  obtain G where G: "create_networkx_graph family_nlp family_cos family_data [0, 1 :: nat] = Inr G"
    and lk: "\<forall>i j. i < j \<and> j < length family_data \<longrightarrow>
            get_edge_data G (doc_node i) (doc_node j) =
              (if family_cos ([0, 1] ! i) ([0, 1] ! j) > 7 / 10
               then Some \<lparr>e_relation = Some ''similar'',
                          e_weight = Some (Num (family_cos ([0, 1] ! i) ([0, 1] ! j)))\<rparr>
               else None)
            \<and> get_edge_data G (doc_node j) (doc_node i) = get_edge_data G (doc_node i) (doc_node j)"
    and wt: "\<forall>(p, a) \<in> set (g_edges G). \<forall>w. e_weight a = Some w \<longrightarrow>
            (\<exists>x. w = Num x \<and> 7 / 10 < x \<and> ((\<forall>x y. family_cos x y \<le> 1) \<longrightarrow> x \<le> 1))"
    by blast
  from G family_graph_built have g: "G = family_graph" by simp
  have "(0 :: nat) < 1 \<and> 1 < length family_data" by (simp add: family_data_def)
  with lk have "get_edge_data G (doc_node 0) (doc_node 1) =
              (if family_cos ([0, 1] ! 0) ([0, 1] ! 1) > 7 / 10
               then Some \<lparr>e_relation = Some ''similar'',
                          e_weight = Some (Num (family_cos ([0, 1] ! 0) ([0, 1] ! 1)))\<rparr>
               else None)"
    by blast
  then have e: "get_edge_data family_graph (doc_node 0) (doc_node 1)
       = Some \<lparr>e_relation = Some ''similar'', e_weight = Some (Num (82 / 100))\<rparr>"
    by (simp add: g family_cos_def)
  have m: "((''doc_0'', ''doc_1''), \<lparr>e_relation = Some ''similar'', e_weight = Some (Num (82 / 100))\<rparr>)
       \<in> set (g_edges family_graph)"
    by (simp add: family_graph_def)
  have bound: "\<forall>x y. family_cos x y \<le> 1"
    by (simp add: family_cos_def)
  from wt m bound have "(7 / 10 :: real) < 82 / 100 \<and> (82 / 100 :: real) \<le> 1"
    unfolding g by fastforce
  with l nc G g e m show ?thesis by simp
qed

end
